theory Spec2Isabelle
  imports Main
begin

section \<open>The transition engine (fsm.go)\<close>

subsection \<open>Errors, states, events\<close>

text \<open>
  A Go \<^verbatim>\<open>error\<close> is \<open>nil\<close> or a value; the model writes it \<open>error option\<close>
  with \<open>None\<close> for \<open>nil\<close>. The package has two sentinel values, compared by identity,
  and builds every other error of its own with \<^verbatim>\<open>errors.New\<close> on a message. An action may
  return any error value, the sentinels included.
\<close>

datatype error = AlreadyExists | NoTransition | errors_New string

definition ShouldNotReEnterPanic :: string where
  "ShouldNotReEnterPanic =
     ''the process event should not re-enter. '' @
     ''i.e., ProcessEvent should not be invoked in action/guard''"

text \<open>
  \<^verbatim>\<open>State\<close> and \<^verbatim>\<open>Event\<close> are one-method interfaces. A value of the model is a
  non-nil implementation whose identifier method is constant (the source asks for immutable
  states); the second component tells apart two values that share an identifier, and for
  an event stands for the data it carries.
\<close>

datatype State = State (FSMStateID: string) (stateValue: nat)

datatype Event = Event (FSMEventID: string) (eventData: nat)

definition stateNotFound :: "State \<Rightarrow> error" where
  "stateNotFound state = errors_New (''state '' @ FSMStateID state @ '' not found'')"

definition eventNotFound :: "string \<Rightarrow> error" where
  "eventNotFound event = errors_New (''event '' @ event @ '' not found'')"

subsection \<open>Guards and actions\<close>

text \<open>
  A call either returns or panics with a value (a string in the model).
\<close>

datatype 'a outcome = Returned 'a | Panicked string

text \<open>
  A guard or an action is a Go closure: it reads and writes whatever it has captured or
  reaches through the payload (the world \<open>'w\<close> of the model), returns or panics, and
  nothing stops it from calling \<^verbatim>\<open>ProcessEvent\<close> on the machine that is running it.
  A run of a callback is therefore a tree: it ends by returning or panicking in some
  world, or it calls \<^verbatim>\<open>ProcessEvent\<close> and goes on from what that call did (a callback
  that does not recover the panic of the inner call goes on with \<open>Panic\<close>).
  Callbacks are taken to terminate, and the registration methods are not called from
  inside a callback.
\<close>

datatype ('w, 'r) callback =
    Return 'r 'w
  | Panic string 'w
  | Reenter Event 'w "error option outcome \<times> 'w \<Rightarrow> ('w, 'r) callback"

record ('w, 'p) transition =
  to :: State
  guard :: "'p \<Rightarrow> Event \<Rightarrow> 'w \<Rightarrow> ('w, bool) callback"
  action :: "'p \<Rightarrow> Event \<Rightarrow> 'w \<Rightarrow> ('w, error option) callback"

record ('w, 'p) FSM =
  curState :: string
  states :: "string \<rightharpoonup> State"
  events :: "string \<rightharpoonup> int"
  transitions :: "string \<rightharpoonup> (string \<rightharpoonup> ('w, 'p) transition list)"
  payload :: 'p
  processEventInvokeCounter :: int

text \<open>
  The counter is a Go \<^verbatim>\<open>int\<close>. It is only incremented, compared with 1 and decremented
  again, so its values stay within one step of where a call started and the width of
  the machine integer plays no role; the model uses \<open>int\<close>.
\<close>

definition NewFSM :: "State \<Rightarrow> 'p \<Rightarrow> ('w, 'p) FSM" where
  "NewFSM initState payload' =
     \<lparr> curState = FSMStateID initState,
       states = [FSMStateID initState \<mapsto> initState],
       events = Map.empty,
       transitions = Map.empty,
       payload = payload',
       processEventInvokeCounter = 0 \<rparr>"

definition defaultAction :: "'p \<Rightarrow> Event \<Rightarrow> 'w \<Rightarrow> ('w, error option) callback" where
  "defaultAction p ev w = Return None w"

definition defaultGuard :: "'p \<Rightarrow> Event \<Rightarrow> 'w \<Rightarrow> ('w, bool) callback" where
  "defaultGuard p ev w = Return True w"

definition HasEvent :: "('w, 'p) FSM \<Rightarrow> string \<Rightarrow> bool" where
  "HasEvent fsm evID = (case events fsm evID of None \<Rightarrow> False | Some _ \<Rightarrow> True)"

definition HasState :: "('w, 'p) FSM \<Rightarrow> State \<Rightarrow> bool" where
  "HasState fsm state = (case states fsm (FSMStateID state) of None \<Rightarrow> False | Some _ \<Rightarrow> True)"

text \<open>
  \<^verbatim>\<open>CurrentState\<close> indexes the state map; a missing key would give Go's zero value, the
  nil interface, which is \<open>None\<close> here.
\<close>

definition CurrentState :: "('w, 'p) FSM \<Rightarrow> State option" where
  "CurrentState fsm = states fsm (curState fsm)"

definition AddState :: "('w, 'p) FSM \<Rightarrow> State \<Rightarrow> error option \<times> ('w, 'p) FSM" where
  "AddState fsm state =
     (if HasState fsm state then (Some AlreadyExists, fsm)
      else (None, fsm\<lparr>states := (states fsm)(FSMStateID state \<mapsto> state)\<rparr>))"

definition AddEvent :: "('w, 'p) FSM \<Rightarrow> string \<Rightarrow> error option \<times> ('w, 'p) FSM" where
  "AddEvent fsm eventID =
     (if HasEvent fsm eventID then (Some AlreadyExists, fsm)
      else (None, fsm\<lparr>events := (events fsm)(eventID \<mapsto> 0)\<rparr>))"

text \<open>
  \<^verbatim>\<open>AddTransition\<close>: a nil action or guard (\<open>None\<close>) is replaced by the default, the
  three registrations are checked in the order from, event, to, the two levels of the
  table are created where missing, and the new transition is appended.
\<close>

definition AddTransition ::
  "('w, 'p) FSM \<Rightarrow> State \<Rightarrow> string \<Rightarrow> State \<Rightarrow>
   ('p \<Rightarrow> Event \<Rightarrow> 'w \<Rightarrow> ('w, error option) callback) option \<Rightarrow>
   ('p \<Rightarrow> Event \<Rightarrow> 'w \<Rightarrow> ('w, bool) callback) option \<Rightarrow>
   error option \<times> ('w, 'p) FSM" where
  "AddTransition fsm from evId to' action' guard' =
     (let action1 = (case action' of None \<Rightarrow> defaultAction | Some a \<Rightarrow> a);
          guard1 = (case guard' of None \<Rightarrow> defaultGuard | Some g \<Rightarrow> g)
      in if \<not> HasState fsm from then (Some (stateNotFound from), fsm)
         else if \<not> HasEvent fsm evId then (Some (eventNotFound evId), fsm)
         else if \<not> HasState fsm to' then (Some (stateNotFound to'), fsm)
         else
           let fromID = FSMStateID from;
               byEvent = (case transitions fsm fromID of None \<Rightarrow> Map.empty | Some m \<Rightarrow> m);
               transList = (case byEvent evId of None \<Rightarrow> [] | Some l \<Rightarrow> l);
               appended = transList @ [\<lparr> to = to', guard = guard1, action = action1 \<rparr>]
           in (None, fsm\<lparr>transitions := (transitions fsm)(fromID \<mapsto> byEvent(evId \<mapsto> appended))\<rparr>))"

subsection \<open>ProcessEvent\<close>

text \<open>
  Running a callback inside a call of \<^verbatim>\<open>ProcessEvent\<close>. The parameter \<open>pe\<close> is what a
  nested call of \<^verbatim>\<open>ProcessEvent\<close> does (\<open>None\<close>: the call did not come back within the
  depth allowed); the machine is threaded through, since the nested call works on it.
\<close>

primrec run_callback ::
  "(('w, 'p) FSM \<Rightarrow> Event \<Rightarrow> 'w \<Rightarrow> (error option outcome \<times> 'w \<times> ('w, 'p) FSM) option) \<Rightarrow>
   ('w, 'p) FSM \<Rightarrow> ('w, 'r) callback \<Rightarrow> ('r outcome \<times> 'w \<times> ('w, 'p) FSM) option" where
  "run_callback pe fsm (Return r w) = Some (Returned r, w, fsm)"
| "run_callback pe fsm (Panic v w) = Some (Panicked v, w, fsm)"
| "run_callback pe fsm (Reenter ev w k) =
     (case pe fsm ev w of
        None \<Rightarrow> None
      | Some (out, w', fsm') \<Rightarrow> run_callback pe fsm' (k (out, w')))"

text \<open>
  The loop \<^verbatim>\<open>for _, t := range transList\<close>: a false guard continues, the first true
  guard runs the action and ends the call, with the state written only when the action
  returned nil; a panic of a callback leaves through the call. Falling out of the loop
  is the final \<^verbatim>\<open>return NoTransition\<close>.
\<close>

fun range_transList ::
  "(('w, 'p) FSM \<Rightarrow> Event \<Rightarrow> 'w \<Rightarrow> (error option outcome \<times> 'w \<times> ('w, 'p) FSM) option) \<Rightarrow>
   ('w, 'p) FSM \<Rightarrow> Event \<Rightarrow> 'w \<Rightarrow> ('w, 'p) transition list \<Rightarrow>
   (error option outcome \<times> 'w \<times> ('w, 'p) FSM) option" where
  "range_transList pe fsm ev w [] = Some (Returned (Some NoTransition), w, fsm)"
| "range_transList pe fsm ev w (t # ts) =
     (case run_callback pe fsm (guard t (payload fsm) ev w) of
        None \<Rightarrow> None
      | Some (Panicked v, w1, fsm1) \<Rightarrow> Some (Panicked v, w1, fsm1)
      | Some (Returned False, w1, fsm1) \<Rightarrow> range_transList pe fsm1 ev w1 ts
      | Some (Returned True, w1, fsm1) \<Rightarrow>
          (case run_callback pe fsm1 (action t (payload fsm1) ev w1) of
             None \<Rightarrow> None
           | Some (Panicked v, w2, fsm2) \<Rightarrow> Some (Panicked v, w2, fsm2)
           | Some (Returned (Some err), w2, fsm2) \<Rightarrow> Some (Returned (Some err), w2, fsm2)
           | Some (Returned None, w2, fsm2) \<Rightarrow>
               Some (Returned None, w2, fsm2\<lparr>curState := FSMStateID (to t)\<rparr>)))"

text \<open>The two lookups and the loop: lines 146 to 166 of the source.\<close>

definition lookup_and_range ::
  "(('w, 'p) FSM \<Rightarrow> Event \<Rightarrow> 'w \<Rightarrow> (error option outcome \<times> 'w \<times> ('w, 'p) FSM) option) \<Rightarrow>
   ('w, 'p) FSM \<Rightarrow> Event \<Rightarrow> 'w \<Rightarrow> (error option outcome \<times> 'w \<times> ('w, 'p) FSM) option" where
  "lookup_and_range pe fsm ev w =
     (case transitions fsm (curState fsm) of
        None \<Rightarrow> Some (Returned (Some NoTransition), w, fsm)
      | Some trans' \<Rightarrow>
          (case trans' (FSMEventID ev) of
             None \<Rightarrow> Some (Returned (Some NoTransition), w, fsm)
           | Some transList \<Rightarrow> range_transList pe fsm ev w transList))"

text \<open>
  One call of \<^verbatim>\<open>ProcessEvent\<close>, given what a nested call does: the increment, the check
  that panics, the body, and the deferred decrement, which Go runs when the call returns
  and when it panics.
\<close>

definition ProcessEvent_call ::
  "(('w, 'p) FSM \<Rightarrow> Event \<Rightarrow> 'w \<Rightarrow> (error option outcome \<times> 'w \<times> ('w, 'p) FSM) option) \<Rightarrow>
   ('w, 'p) FSM \<Rightarrow> Event \<Rightarrow> 'w \<Rightarrow> (error option outcome \<times> 'w \<times> ('w, 'p) FSM) option" where
  "ProcessEvent_call pe fsm ev w =
     (let fsm1 = fsm\<lparr>processEventInvokeCounter := processEventInvokeCounter fsm + 1\<rparr>
      in case (if processEventInvokeCounter fsm1 \<noteq> 1
               then Some (Panicked ShouldNotReEnterPanic, w, fsm1)
               else lookup_and_range pe fsm1 ev w) of
           None \<Rightarrow> None
         | Some (out, w', fsm2) \<Rightarrow>
             Some (out, w', fsm2\<lparr>processEventInvokeCounter := processEventInvokeCounter fsm2 - 1\<rparr>))"

text \<open>
  \<^verbatim>\<open>ProcessEvent\<close> calls itself through the callbacks, so the model is indexed by the
  number of nested calls it may make: \<open>ProcessEvent n\<close> is the source function allowed
  \<open>n\<close> levels of calls, and \<open>None\<close> says that the levels ran out. Two levels are always
  enough (\<open>ProcessEvent_depth\<close> below), because a nested call stops at the check.
\<close>

fun ProcessEvent ::
  "nat \<Rightarrow> ('w, 'p) FSM \<Rightarrow> Event \<Rightarrow> 'w \<Rightarrow> (error option outcome \<times> 'w \<times> ('w, 'p) FSM) option" where
  "ProcessEvent 0 fsm ev w = None"
| "ProcessEvent (Suc n) fsm ev w = ProcessEvent_call (ProcessEvent n) fsm ev w"

subsection \<open>What a callback does inside a call\<close>

text \<open>
  Inside \<^verbatim>\<open>ProcessEvent\<close> the counter is 1, and every nested call panics at the check
  (\<open>run_callback_nested_panics\<close> below), so the run of a callback there is the path of its
  tree along which each nested call answers with that panic.
\<close>

primrec callback_outcome :: "('w, 'r) callback \<Rightarrow> 'r outcome \<times> 'w" where
  "callback_outcome (Return r w) = (Returned r, w)"
| "callback_outcome (Panic v w) = (Panicked v, w)"
| "callback_outcome (Reenter ev w k) = callback_outcome (k (Panicked ShouldNotReEnterPanic, w))"

text \<open>
  The guards of a prefix of a transition list, called in order, all return false;
  the result is the world they leave.
\<close>

fun guards_rejected :: "'p \<Rightarrow> Event \<Rightarrow> 'w \<Rightarrow> ('w, 'p) transition list \<Rightarrow> 'w option" where
  "guards_rejected p ev w [] = Some w"
| "guards_rejected p ev w (t # ts) =
     (case callback_outcome (guard t p ev w) of
        (Returned False, w1) \<Rightarrow> guards_rejected p ev w1 ts
      | _ \<Rightarrow> None)"

text \<open>
  The list \<^verbatim>\<open>ProcessEvent\<close> finds with its two lookups, for a state and an event
  identifier; \<open>None\<close> when either level of the table has no entry.
\<close>

definition transList_for ::
  "('w, 'p) FSM \<Rightarrow> string \<Rightarrow> string \<Rightarrow> ('w, 'p) transition list option" where
  "transList_for fsm s e = (case transitions fsm s of None \<Rightarrow> None | Some m \<Rightarrow> m e)"

subsection \<open>Sequences of calls\<close>

text \<open>
  A client drives an engine through its exported methods. \<open>perform\<close> is one such call
  on the machine and the world, \<open>run_calls\<close> a sequence of them from left to right;
  the errors returned are dropped here, and a sequence goes on after a panic as it does
  for a caller that recovers. \<^verbatim>\<open>ProcessEvent\<close> is entered with depth 2.
\<close>

datatype ('w, 'p) call =
    CallAddState State
  | CallAddEvent string
  | CallAddTransition State string State
      "('p \<Rightarrow> Event \<Rightarrow> 'w \<Rightarrow> ('w, error option) callback) option"
      "('p \<Rightarrow> Event \<Rightarrow> 'w \<Rightarrow> ('w, bool) callback) option"
  | CallProcessEvent Event

fun perform :: "('w, 'p) FSM \<times> 'w \<Rightarrow> ('w, 'p) call \<Rightarrow> ('w, 'p) FSM \<times> 'w" where
  "perform (fsm, w) (CallAddState state) = (snd (AddState fsm state), w)"
| "perform (fsm, w) (CallAddEvent eventID) = (snd (AddEvent fsm eventID), w)"
| "perform (fsm, w) (CallAddTransition from evId to' action' guard') =
     (snd (AddTransition fsm from evId to' action' guard'), w)"
| "perform (fsm, w) (CallProcessEvent ev) =
     (case ProcessEvent 2 fsm ev w of
        None \<Rightarrow> (fsm, w)
      | Some (out, w', fsm') \<Rightarrow> (fsm', w'))"

definition run_calls ::
  "('w, 'p) FSM \<times> 'w \<Rightarrow> ('w, 'p) call list \<Rightarrow> ('w, 'p) FSM \<times> 'w" where
  "run_calls start calls = foldl perform start calls"

text \<open>
  What the registration methods establish and \<^verbatim>\<open>ProcessEvent\<close> relies on: the
  current state is registered, no call is in progress, and every target in the table is
  registered.
\<close>

definition engine_inv :: "('w, 'p) FSM \<Rightarrow> bool" where
  "engine_inv fsm \<longleftrightarrow>
     curState fsm \<in> dom (states fsm) \<and>
     processEventInvokeCounter fsm = 0 \<and>
     (\<forall>s e ts t. transList_for fsm s e = Some ts \<longrightarrow> t \<in> set ts \<longrightarrow>
        FSMStateID (to t) \<in> dom (states fsm))"

subsection \<open>The switch of the tests\<close>

text \<open>
  The machines of the test files: two states, one event. The world of these examples is
  a number to which every callback adds its own amount when it runs, so that the world
  after a call tells which callbacks ran.
\<close>

definition off :: State where
  "off = State ''off'' 0"

definition on :: State where
  "on = State ''on'' 0"

definition switchEventID :: string where
  "switchEventID = ''switch''"

definition Switch :: Event where
  "Switch = Event switchEventID 0"

text \<open>Two transitions on (off, switch): the first guard says no, the second yes.\<close>

definition guarded_switch :: "(nat, unit) FSM" where
  "guarded_switch =
     fst (run_calls (NewFSM off (), 0)
       [CallAddState on,
        CallAddEvent switchEventID,
        CallAddTransition off switchEventID off None (Some (\<lambda>p ev w. Return False (w + 1))),
        CallAddTransition off switchEventID on
          (Some (\<lambda>p ev w. Return None (w + 100))) (Some (\<lambda>p ev w. Return True (w + 10))),
        CallAddTransition on switchEventID off None (Some (\<lambda>p ev w. Return False (w + 1)))])"

text \<open>The action of the first transition fails; a second transition would be willing.\<close>

definition failing_switch :: "(nat, unit) FSM" where
  "failing_switch =
     fst (run_calls (NewFSM off (), 0)
       [CallAddState on,
        CallAddEvent switchEventID,
        CallAddTransition off switchEventID on
          (Some (\<lambda>p ev w. Return (Some (errors_New ''boom'')) (w + 100)))
          (Some (\<lambda>p ev w. Return True (w + 10))),
        CallAddTransition off switchEventID on
          (Some (\<lambda>p ev w. Return None (w + 1000))) (Some (\<lambda>p ev w. Return True (w + 1)))])"





section \<open>The preemptive scheduler (PreemptiveFSM)\<close>

text \<open>
  A \<^verbatim>\<open>preemptiveEventEntry\<close> is allocated by each call of \<^verbatim>\<open>ProcessEvent\<close> and
  passed around by pointer. The model keeps the event and the identity of the
  allocation; \<^verbatim>\<open>onComplete\<close>, which stores the result for the caller that allocated
  the entry and wakes it, is the effect recorded below.
\<close>

record preemptiveEventEntry =
  ev :: Event
  ident :: nat

definition preempted :: error where
  "preempted = errors_New ''the current event has been preempted''"

text \<open>
  \<^verbatim>\<open>mainLoop\<close> runs two loops side by side. The dispatcher (the outer \<^verbatim>\<open>for\<close>) is at
  the receive of line 54, or holds the received value (nil for the one \<^verbatim>\<open>Close\<close>
  sends) before the locked region of lines 56 to 62, or has left that region with the
  previous content of the slot and still has lines 63 to 70 to do, or waits for the
  worker at line 74, or is done.
\<close>

datatype dispatcher_pc =
    D_receive
  | D_swap "preemptiveEventEntry option"
  | D_complete "preemptiveEventEntry option" "preemptiveEventEntry option"
  | D_wait
  | D_done

text \<open>
  The worker (the goroutine of line 33) waits on the condition in its locked region
  (lines 39 to 48), or has left the region with an entry and is inside
  \<^verbatim>\<open>FSM.ProcessEvent\<close>, or is back from it and about to call \<^verbatim>\<open>onComplete\<close>, or has
  returned on the exit flag, or has panicked inside the engine, which ends the program.
\<close>

datatype worker_pc =
    W_wait
  | W_claimed preemptiveEventEntry
  | W_processed preemptiveEventEntry "error option"
  | W_exited
  | W_panicked string

text \<open>
  What the two loops do to the world outside: the calls of \<^verbatim>\<open>onComplete\<close> by the
  dispatcher (line 66, always with the preemption error), of \<^verbatim>\<open>FSM.ProcessEvent\<close> by the
  worker, and of \<^verbatim>\<open>onComplete\<close> by the worker with the result of the engine (line 50).
\<close>

datatype effect =
    Preempt preemptiveEventEntry
  | Process preemptiveEventEntry
  | Complete preemptiveEventEntry "error option"

text \<open>The error a caller gets from an \<^verbatim>\<open>onComplete\<close> call, if the effect is one.\<close>

fun delivered :: "effect \<Rightarrow> (preemptiveEventEntry \<times> error option) option" where
  "delivered (Preempt e) = Some (e, Some preempted)"
| "delivered (Process e) = None"
| "delivered (Complete e r) = Some (e, r)"

text \<open>
  The scheduler: the embedded engine and the world of its callbacks, the two fields
  under the mutex, the two loops, the number of entries allocated so far, and the
  effects in the order they happened. The channel is unbuffered, so a send and its
  receive are one step and the channel has no state; the mutex is held exactly during
  the steps that stand for a locked region; the condition variable is the enabling
  condition of the worker's step.
\<close>

record ('w, 'p) PreemptiveFSM =
  FSM :: "('w, 'p) FSM"
  world :: 'w
  exitFlag :: bool
  nextEntry :: "preemptiveEventEntry option"
  dispatcher :: dispatcher_pc
  worker :: worker_pc
  allocated :: nat
  effects :: "effect list"

definition NewPreemptiveFSM :: "State \<Rightarrow> 'p \<Rightarrow> 'w \<Rightarrow> ('w, 'p) PreemptiveFSM" where
  "NewPreemptiveFSM initState payload' w =
     \<lparr> FSM = NewFSM initState payload',
       world = w,
       exitFlag = False,
       nextEntry = None,
       dispatcher = D_receive,
       worker = W_wait,
       allocated = 0,
       effects = [] \<rparr>"

text \<open>
  The steps. \<open>Submit\<close> is a caller in \<^verbatim>\<open>PreemptiveFSM.ProcessEvent\<close> allocating its entry
  and handing it over at the receive; \<open>Close\<close> hands over nil; \<open>Dispatcher\<close> and
  \<open>Worker\<close> let the loop do its next piece.
\<close>

datatype act = Submit Event | Close | Dispatcher | Worker

text \<open>
  The dispatcher after a receive. The locked region stores the received value in the
  slot, remembers what was there, and raises the exit flag on nil. After the region it
  broadcasts (nothing to do in the model), completes a displaced entry with the
  preemption error, and leaves the loop on nil.
\<close>

fun dispatcher_step :: "('w, 'p) PreemptiveFSM \<Rightarrow> ('w, 'p) PreemptiveFSM option" where
  "dispatcher_step p =
     (case dispatcher p of
        D_swap evEntry \<Rightarrow>
          Some (p\<lparr> nextEntry := evEntry,
                  exitFlag := (if evEntry = None then True else exitFlag p),
                  dispatcher := D_complete (nextEntry p) evEntry \<rparr>)
      | D_complete prevEvEntry evEntry \<Rightarrow>
          Some (p\<lparr> effects := effects p @
                    (case prevEvEntry of None \<Rightarrow> [] | Some prev \<Rightarrow> [Preempt prev]),
                  dispatcher := (if evEntry = None then D_wait else D_receive) \<rparr>)
      | D_wait \<Rightarrow> (if worker p = W_exited then Some (p\<lparr>dispatcher := D_done\<rparr>) else None)
      | _ \<Rightarrow> None)"

text \<open>
  The worker. In its locked region it stays while the flag is down and the slot is empty,
  returns if the flag is up, and otherwise takes the entry and empties the slot. Outside
  the region it calls the engine and then \<^verbatim>\<open>onComplete\<close> with the result.
\<close>

fun worker_step :: "('w, 'p) PreemptiveFSM \<Rightarrow> ('w, 'p) PreemptiveFSM option" where
  "worker_step p =
     (case worker p of
        W_wait \<Rightarrow>
          (if exitFlag p then Some (p\<lparr>worker := W_exited\<rparr>)
           else case nextEntry p of
                  None \<Rightarrow> None
                | Some evEntry \<Rightarrow> Some (p\<lparr>worker := W_claimed evEntry, nextEntry := None\<rparr>))
      | W_claimed evEntry \<Rightarrow>
          (case ProcessEvent 2 (FSM p) (ev evEntry) (world p) of
             None \<Rightarrow> None
           | Some (Returned r, w', fsm') \<Rightarrow>
               Some (p\<lparr> FSM := fsm', world := w', worker := W_processed evEntry r,
                       effects := effects p @ [Process evEntry] \<rparr>)
           | Some (Panicked v, w', fsm') \<Rightarrow>
               Some (p\<lparr> FSM := fsm', world := w', worker := W_panicked v,
                       effects := effects p @ [Process evEntry] \<rparr>))
      | W_processed evEntry r \<Rightarrow>
          Some (p\<lparr> effects := effects p @ [Complete evEntry r], worker := W_wait \<rparr>)
      | _ \<Rightarrow> None)"

definition crashed :: "('w, 'p) PreemptiveFSM \<Rightarrow> bool" where
  "crashed p = (case worker p of W_panicked v \<Rightarrow> True | _ \<Rightarrow> False)"

fun step :: "act \<Rightarrow> ('w, 'p) PreemptiveFSM \<Rightarrow> ('w, 'p) PreemptiveFSM option" where
  "step a p =
     (if crashed p then None
      else case a of
        Submit event \<Rightarrow>
          (if dispatcher p = D_receive
           then Some (p\<lparr> dispatcher := D_swap (Some \<lparr> ev = event, ident = allocated p \<rparr>),
                        allocated := Suc (allocated p) \<rparr>)
           else None)
      | Close \<Rightarrow> (if dispatcher p = D_receive then Some (p\<lparr>dispatcher := D_swap None\<rparr>) else None)
      | Dispatcher \<Rightarrow> dispatcher_step p
      | Worker \<Rightarrow> worker_step p)"

text \<open>
  A schedule is a list of steps; it runs while each step is enabled (\<open>None\<close> otherwise).
\<close>

fun run :: "('w, 'p) PreemptiveFSM \<Rightarrow> act list \<Rightarrow> ('w, 'p) PreemptiveFSM option" where
  "run p [] = Some p"
| "run p (a # as) = (case step a p of None \<Rightarrow> None | Some p' \<Rightarrow> run p' as)"

text \<open>
  Where an entry is: on its way into the slot, taken out of the slot by the dispatcher
  (which completes it with the preemption error), or taken out by the worker.
\<close>

definition incoming :: "('w, 'p) PreemptiveFSM \<Rightarrow> preemptiveEventEntry set" where
  "incoming p = {e. dispatcher p = D_swap (Some e)}"

definition displaced :: "('w, 'p) PreemptiveFSM \<Rightarrow> preemptiveEventEntry set" where
  "displaced p = {e. (\<exists>x. dispatcher p = D_complete (Some e) x) \<or> Preempt e \<in> set (effects p)}"

definition claimed :: "('w, 'p) PreemptiveFSM \<Rightarrow> preemptiveEventEntry set" where
  "claimed p = {e. worker p = W_claimed e \<or> Process e \<in> set (effects p)}"

text \<open>
  Every entry is in one place only: no entry that the worker took is in the slot, on its
  way into it, or displaced, and the identities in use are below the allocation count.
\<close>

definition sched_inv :: "('w, 'p) PreemptiveFSM \<Rightarrow> bool" where
  "sched_inv p \<longleftrightarrow>
     (\<forall>e \<in> incoming p \<union> set_option (nextEntry p) \<union> displaced p \<union> claimed p.
        ident e < allocated p) \<and>
     incoming p \<inter> (set_option (nextEntry p) \<union> displaced p \<union> claimed p) = {} \<and>
     set_option (nextEntry p) \<inter> (displaced p \<union> claimed p) = {} \<and>
     displaced p \<inter> claimed p = {}"

definition option_list :: "'a option \<Rightarrow> 'a list" where
  "option_list x = (case x of None \<Rightarrow> [] | Some y \<Rightarrow> [y])"

text \<open>
  A submission arrives in the slot with the locked region of the dispatcher: \<open>stored\<close>
  is what a step puts into the slot, \<open>arrivals\<close> what a schedule puts there, in order.
\<close>

definition stored :: "act \<Rightarrow> ('w, 'p) PreemptiveFSM \<Rightarrow> preemptiveEventEntry list" where
  "stored a p =
     (if a = Dispatcher
      then case dispatcher p of D_swap evEntry \<Rightarrow> option_list evEntry | _ \<Rightarrow> []
      else [])"

fun arrivals :: "('w, 'p) PreemptiveFSM \<Rightarrow> act list \<Rightarrow> preemptiveEventEntry list" where
  "arrivals p [] = []"
| "arrivals p (a # as) =
     (case step a p of None \<Rightarrow> [] | Some p' \<Rightarrow> stored a p @ arrivals p' as)"

text \<open>
  The entry the dispatcher has taken out of the slot and not yet completed: its next
  step (line 66) completes it with the preemption error.
\<close>

definition pending :: "('w, 'p) PreemptiveFSM \<Rightarrow> preemptiveEventEntry list" where
  "pending p =
     (case dispatcher p of
        D_complete prevEvEntry evEntry \<Rightarrow> option_list prevEvEntry
      | _ \<Rightarrow> [])"

text \<open>
  The number of steps the worker can make before it is back in its locked region and
  takes an entry (after a panic there are no steps at all).
\<close>

fun steps_to_claim :: "worker_pc \<Rightarrow> nat" where
  "steps_to_claim (W_claimed evEntry) = 2"
| "steps_to_claim (W_processed evEntry r) = 1"
| "steps_to_claim (W_panicked v) = 2"
| "steps_to_claim W_wait = 0"
| "steps_to_claim W_exited = 0"

text \<open>
  The effects of one kind, in order: the entries completed with the preemption error,
  the entries the engine was called on, and the results handed to \<^verbatim>\<open>onComplete\<close> by the
  worker.
\<close>

fun preempts :: "effect list \<Rightarrow> preemptiveEventEntry list" where
  "preempts [] = []"
| "preempts (Preempt e # cs) = e # preempts cs"
| "preempts (c # cs) = preempts cs"

fun engine_calls :: "effect list \<Rightarrow> preemptiveEventEntry list" where
  "engine_calls [] = []"
| "engine_calls (Process e # cs) = e # engine_calls cs"
| "engine_calls (c # cs) = engine_calls cs"

fun results :: "effect list \<Rightarrow> (preemptiveEventEntry \<times> error option) list" where
  "results [] = []"
| "results (Complete e r # cs) = (e, r) # results cs"
| "results (c # cs) = results cs"

subsection \<open>The scenario of the scheduler test\<close>

text \<open>
  The machine of \<^verbatim>\<open>TestNewPreemptiveFSM\<close>: the switch goes from off to on and back, and
  each action counts (the world is the counter).
\<close>

definition toggle_switch :: "(nat, unit) FSM" where
  "toggle_switch =
     fst (run_calls (NewFSM off (), 0)
       [CallAddState on,
        CallAddEvent switchEventID,
        CallAddTransition off switchEventID on (Some (\<lambda>p event w. Return None (w + 1))) None,
        CallAddTransition on switchEventID off (Some (\<lambda>p event w. Return None (w + 1))) None])"

definition test_scheduler :: "(nat, unit) PreemptiveFSM" where
  "test_scheduler = (NewPreemptiveFSM off () 0)\<lparr>FSM := toggle_switch\<rparr>"

text \<open>The first submission has been taken by the worker, which is inside the engine.\<close>

definition busy_scheduler :: "(nat, unit) PreemptiveFSM" where
  "busy_scheduler =
     test_scheduler\<lparr> worker := W_claimed \<lparr> ev = Switch, ident = 0 \<rparr>, allocated := 1 \<rparr>"

section \<open>The queued scheduler (QueuedFSM), in its two versions\<close>

text \<open>
  \<^verbatim>\<open>QueuedFSM.ProcessEvent\<close> exists twice: in queued\_fsm.go the caller waits on a
  \<^verbatim>\<open>sync.WaitGroup\<close> to which it has added 1, in the other file on a notification of the
  package \<^verbatim>\<open>parallel\<close>. Everything else, \<^verbatim>\<open>mainLoop\<close> included, is the same text.

  A wait group is its counter: \<^verbatim>\<open>Add\<close> adds to it and panics if the sum is negative,
  \<^verbatim>\<open>Done\<close> is \<^verbatim>\<open>Add(-1)\<close> (\<open>None\<close> for the panic), and \<^verbatim>\<open>Wait\<close> returns when the
  counter is 0. The \<^verbatim>\<open>Add(1)\<close> on the new wait group of a call cannot panic.
\<close>

definition WaitGroup_Add :: "int \<Rightarrow> int \<Rightarrow> int" where
  "WaitGroup_Add wg delta = wg + delta"

definition WaitGroup_Done :: "int \<Rightarrow> int option" where
  "WaitGroup_Done wg = (if WaitGroup_Add wg (- 1) < 0 then None else Some (WaitGroup_Add wg (- 1)))"

definition WaitGroup_Wait_returns :: "int \<Rightarrow> bool" where
  "WaitGroup_Wait_returns wg = (wg = 0)"

text \<open>
  Modelled from the spec: \<^verbatim>\<open>parallel.Notification\<close> with \<^verbatim>\<open>NewNotification\<close>,
  \<^verbatim>\<open>Done\<close> and \<^verbatim>\<open>Wait\<close>, which belong to the package github.com/reyoung/parallel and
  are not among the sources. The spec gives the contract: a single-use signal that one
  side fulfils and the other blocks on, exactly once. So a notification is pending until
  \<^verbatim>\<open>Done\<close> fulfils it, \<^verbatim>\<open>Wait\<close> returns once it is fulfilled, and a second \<^verbatim>\<open>Done\<close>
  is outside the contract (\<open>None\<close>, a fault).
\<close>

datatype Notification = Pending | Fulfilled

definition NewNotification :: Notification where
  "NewNotification = Pending"

fun Notification_Done :: "Notification \<Rightarrow> Notification option" where
  "Notification_Done Pending = Some Fulfilled"
| "Notification_Done Fulfilled = None"

fun Notification_Wait_returns :: "Notification \<Rightarrow> bool" where
  "Notification_Wait_returns Pending = False"
| "Notification_Wait_returns Fulfilled = True"

text \<open>The signal of a call is of the one kind or of the other.\<close>

datatype signal = WaitGroup int | Notification Notification

fun Done :: "signal \<Rightarrow> signal option" where
  "Done (WaitGroup wg) = map_option WaitGroup (WaitGroup_Done wg)"
| "Done (Notification notification) = map_option Notification (Notification_Done notification)"

fun Wait_returns :: "signal \<Rightarrow> bool" where
  "Wait_returns (WaitGroup wg) = WaitGroup_Wait_returns wg"
| "Wait_returns (Notification notification) = Notification_Wait_returns notification"

text \<open>
  A call of \<^verbatim>\<open>ProcessEvent\<close> in progress: its argument, the named result \<^verbatim>\<open>errResult\<close>
  (nil at first), the signal it waits on, and where it is: before the send on the
  channel, inside \<^verbatim>\<open>Wait\<close>, or returned with a value. The entry it sends holds the event
  and a closure over this frame, so the model names an entry by the index of its frame.
\<close>

datatype call_pc = C_send | C_wait | C_returned "error option"

record call_frame =
  call_ev :: Event
  errResult :: "error option"
  signal :: signal
  call_pc :: call_pc

text \<open>The first lines of the two versions, up to the send.\<close>

definition ProcessEvent_WaitGroup :: "Event \<Rightarrow> call_frame" where
  "ProcessEvent_WaitGroup event =
     \<lparr> call_ev = event, errResult = None, signal = WaitGroup (WaitGroup_Add 0 1),
       call_pc = C_send \<rparr>"

definition ProcessEvent_Notification :: "Event \<Rightarrow> call_frame" where
  "ProcessEvent_Notification event =
     \<lparr> call_ev = event, errResult = None, signal = Notification NewNotification,
       call_pc = C_send \<rparr>"

text \<open>
  \<^verbatim>\<open>mainLoop\<close> is at its receive, or inside \<^verbatim>\<open>FSM.ProcessEvent\<close> for the entry of a frame,
  or back from it with the result and about to call \<^verbatim>\<open>onComplete\<close>, or has left the loop
  on nil, or has panicked.
\<close>

datatype loop_pc =
    L_receive
  | L_process nat
  | L_complete nat "error option"
  | L_exited
  | L_panicked string

datatype queued_effect =
    Engine_returned nat Event "error option"
  | onComplete_called nat "error option"

record ('w, 'p) QueuedFSM =
  qFSM :: "('w, 'p) FSM"
  qworld :: 'w
  mainLoop_pc :: loop_pc
  frames :: "call_frame list"
  qeffects :: "queued_effect list"

definition NewQueuedFSM :: "State \<Rightarrow> 'p \<Rightarrow> 'w \<Rightarrow> ('w, 'p) QueuedFSM" where
  "NewQueuedFSM initState payload' w =
     \<lparr> qFSM = NewFSM initState payload',
       qworld = w,
       mainLoop_pc = L_receive,
       frames = [],
       qeffects = [] \<rparr>"

text \<open>
  The steps: a new call of \<^verbatim>\<open>ProcessEvent\<close> runs up to its send; the send of a frame
  meets the receive of the loop; \<^verbatim>\<open>Close\<close> sends nil; the loop does its next piece; a
  frame gets out of \<^verbatim>\<open>Wait\<close> and returns \<^verbatim>\<open>errResult\<close>.
\<close>

datatype queued_act = Call Event | Handoff nat | CloseQ | Loop | WaitReturn nat

text \<open>
  The loop after a receive: the call of the engine, then \<^verbatim>\<open>onComplete\<close>, which stores the
  result in the frame and calls \<^verbatim>\<open>Done\<close> on its signal.
\<close>

definition mainLoop_step :: "('w, 'p) QueuedFSM \<Rightarrow> ('w, 'p) QueuedFSM option" where
  "mainLoop_step q =
     (case mainLoop_pc q of
        L_process i \<Rightarrow>
          (if i < length (frames q)
           then case ProcessEvent 2 (qFSM q) (call_ev (frames q ! i)) (qworld q) of
                  None \<Rightarrow> None
                | Some (Returned r, w', fsm') \<Rightarrow>
                    Some (q\<lparr> qFSM := fsm', qworld := w', mainLoop_pc := L_complete i r,
                            qeffects := qeffects q @
                              [Engine_returned i (call_ev (frames q ! i)) r] \<rparr>)
                | Some (Panicked v, w', fsm') \<Rightarrow>
                    Some (q\<lparr> qFSM := fsm', qworld := w', mainLoop_pc := L_panicked v \<rparr>)
           else None)
      | L_complete i r \<Rightarrow>
          (if i < length (frames q)
           then case Done (signal (frames q ! i)) of
                  None \<Rightarrow>
                    Some (q\<lparr> frames := (frames q)[i := (frames q ! i)\<lparr>errResult := r\<rparr>],
                            mainLoop_pc := L_panicked ''Done on a fulfilled signal'',
                            qeffects := qeffects q @ [onComplete_called i r] \<rparr>)
                | Some s \<Rightarrow>
                    Some (q\<lparr> frames := (frames q)[i := (frames q ! i)\<lparr>errResult := r, signal := s\<rparr>],
                            mainLoop_pc := L_receive,
                            qeffects := qeffects q @ [onComplete_called i r] \<rparr>)
           else None)
      | _ \<Rightarrow> None)"

definition queued_crashed :: "('w, 'p) QueuedFSM \<Rightarrow> bool" where
  "queued_crashed q = (case mainLoop_pc q of L_panicked v \<Rightarrow> True | _ \<Rightarrow> False)"

text \<open>
  One step of the system, for the version of \<^verbatim>\<open>ProcessEvent\<close> whose first lines are
  \<open>enter\<close>.
\<close>

definition queued_step ::
  "(Event \<Rightarrow> call_frame) \<Rightarrow> queued_act \<Rightarrow> ('w, 'p) QueuedFSM \<Rightarrow> ('w, 'p) QueuedFSM option" where
  "queued_step enter a q =
     (if queued_crashed q then None
      else case a of
        Call event \<Rightarrow> Some (q\<lparr>frames := frames q @ [enter event]\<rparr>)
      | Handoff i \<Rightarrow>
          (if i < length (frames q) \<and> call_pc (frames q ! i) = C_send \<and> mainLoop_pc q = L_receive
           then Some (q\<lparr> frames := (frames q)[i := (frames q ! i)\<lparr>call_pc := C_wait\<rparr>],
                        mainLoop_pc := L_process i \<rparr>)
           else None)
      | CloseQ \<Rightarrow> (if mainLoop_pc q = L_receive then Some (q\<lparr>mainLoop_pc := L_exited\<rparr>) else None)
      | Loop \<Rightarrow> mainLoop_step q
      | WaitReturn i \<Rightarrow>
          (if i < length (frames q) \<and> call_pc (frames q ! i) = C_wait \<and>
              Wait_returns (signal (frames q ! i))
           then Some (q\<lparr>frames :=
                        (frames q)[i := (frames q ! i)\<lparr>call_pc := C_returned (errResult (frames q ! i))\<rparr>]\<rparr>)
           else None))"

fun queued_run ::
  "(Event \<Rightarrow> call_frame) \<Rightarrow> ('w, 'p) QueuedFSM \<Rightarrow> queued_act list \<Rightarrow> ('w, 'p) QueuedFSM option" where
  "queued_run enter q [] = Some q"
| "queued_run enter q (a # as) =
     (case queued_step enter a q of None \<Rightarrow> None | Some q' \<Rightarrow> queued_run enter q' as)"

text \<open>
  What can be seen of a state without looking at the signals: the engine, the world, the
  loop, and of each call its event, its result variable and where it is.
\<close>

definition observe ::
  "('w, 'p) QueuedFSM \<Rightarrow>
   ('w, 'p) FSM \<times> 'w \<times> loop_pc \<times> (Event \<times> error option \<times> call_pc) list \<times> queued_effect list" where
  "observe q =
     (qFSM q, qworld q, mainLoop_pc q,
      map (\<lambda>f. (call_ev f, errResult f, call_pc f)) (frames q), qeffects q)"

text \<open>The signal of the other version that stands for a wait group.\<close>

fun as_notification :: "signal \<Rightarrow> signal" where
  "as_notification (WaitGroup wg) = Notification (if wg = 0 then Fulfilled else Pending)"
| "as_notification (Notification notification) = Notification notification"

definition conv :: "call_frame \<Rightarrow> call_frame" where
  "conv f = f\<lparr>signal := as_notification (signal f)\<rparr>"

definition with_notifications :: "('w, 'p) QueuedFSM \<Rightarrow> ('w, 'p) QueuedFSM" where
  "with_notifications q = q\<lparr>frames := map conv (frames q)\<rparr>"

definition wait_groups_ok :: "('w, 'p) QueuedFSM \<Rightarrow> bool" where
  "wait_groups_ok q \<longleftrightarrow>
     (\<forall>f \<in> set (frames q). signal f = WaitGroup 0 \<or> signal f = WaitGroup 1)"

text \<open>
  What holds of every call in every state: while it has not been completed its
  \<^verbatim>\<open>Wait\<close> cannot return, and once \<^verbatim>\<open>Wait\<close> can return or has returned, the engine
  was called on its event and \<^verbatim>\<open>onComplete\<close> was called with what the engine returned,
  which is what \<^verbatim>\<open>errResult\<close> holds.
\<close>

definition frame_ok :: "('w, 'p) QueuedFSM \<Rightarrow> nat \<Rightarrow> bool" where
  "frame_ok q i \<longleftrightarrow>
     (let f = frames q ! i;
          completed = (Engine_returned i (call_ev f) (errResult f) \<in> set (qeffects q) \<and>
                       onComplete_called i (errResult f) \<in> set (qeffects q))
      in case call_pc f of
           C_send \<Rightarrow> \<not> Wait_returns (signal f)
         | C_wait \<Rightarrow> (Wait_returns (signal f) \<longrightarrow> completed)
         | C_returned r \<Rightarrow> r = errResult f \<and> completed)"

definition loop_ok :: "('w, 'p) QueuedFSM \<Rightarrow> bool" where
  "loop_ok q \<longleftrightarrow>
     (case mainLoop_pc q of
        L_process i \<Rightarrow>
          i < length (frames q) \<and> call_pc (frames q ! i) = C_wait \<and>
          \<not> Wait_returns (signal (frames q ! i))
      | L_complete i r \<Rightarrow>
          i < length (frames q) \<and> call_pc (frames q ! i) = C_wait \<and>
          \<not> Wait_returns (signal (frames q ! i)) \<and>
          Engine_returned i (call_ev (frames q ! i)) r \<in> set (qeffects q)
      | _ \<Rightarrow> True)"

definition queued_inv :: "('w, 'p) QueuedFSM \<Rightarrow> bool" where
  "queued_inv q \<longleftrightarrow> loop_ok q \<and> (\<forall>i < length (frames q). frame_ok q i)"

text \<open>The queue of \<^verbatim>\<open>TestNewQueuedFSM\<close>, and its three calls one after the other.\<close>

definition test_queue :: "(nat, unit) QueuedFSM" where
  "test_queue = (NewQueuedFSM off () 0)\<lparr>qFSM := toggle_switch\<rparr>"

definition three_calls :: "queued_act list" where
  "three_calls =
     [Call Switch, Handoff 0, Loop, Loop, WaitReturn 0,
      Call Switch, Handoff 1, Loop, Loop, WaitReturn 1,
      Call Switch, Handoff 2, Loop, Loop, WaitReturn 2]"

section \<open>Properties of the engine\<close>

subsection \<open>The example machines, evaluated\<close>

lemmas engine_defs =
  run_calls_def NewFSM_def AddState_def AddEvent_def AddTransition_def HasState_def HasEvent_def
  off_def on_def switchEventID_def Switch_def defaultAction_def defaultGuard_def Let_def
  transList_for_def

lemma guarded_switch_eq:
  "guarded_switch =
     \<lparr> curState = ''off'',
       states = [''off'' \<mapsto> off, ''on'' \<mapsto> on],
       events = [''switch'' \<mapsto> 0],
       transitions =
         [''off'' \<mapsto>
            [''switch'' \<mapsto>
               [\<lparr> to = off, guard = (\<lambda>p event w. Return False (w + 1)), action = defaultAction \<rparr>,
                \<lparr> to = on, guard = (\<lambda>p event w. Return True (w + 10)),
                  action = (\<lambda>p event w. Return None (w + 100)) \<rparr>]],
          ''on'' \<mapsto>
            [''switch'' \<mapsto>
               [\<lparr> to = off, guard = (\<lambda>p event w. Return False (w + 1)), action = defaultAction \<rparr>]]],
       payload = (),
       processEventInvokeCounter = 0 \<rparr>"
  by (simp add: guarded_switch_def engine_defs)

lemma failing_switch_eq:
  "failing_switch =
     \<lparr> curState = ''off'',
       states = [''off'' \<mapsto> off, ''on'' \<mapsto> on],
       events = [''switch'' \<mapsto> 0],
       transitions =
         [''off'' \<mapsto>
            [''switch'' \<mapsto>
               [\<lparr> to = on, guard = (\<lambda>p event w. Return True (w + 10)),
                  action = (\<lambda>p event w. Return (Some (errors_New ''boom'')) (w + 100)) \<rparr>,
                \<lparr> to = on, guard = (\<lambda>p event w. Return True (w + 1)),
                  action = (\<lambda>p event w. Return None (w + 1000)) \<rparr>]]],
       payload = (),
       processEventInvokeCounter = 0 \<rparr>"
  by (simp add: failing_switch_def engine_defs)



lemma toggle_switch_eq:
  "toggle_switch =
     \<lparr> curState = ''off'',
       states = [''off'' \<mapsto> off, ''on'' \<mapsto> on],
       events = [''switch'' \<mapsto> 0],
       transitions =
         [''off'' \<mapsto>
            [''switch'' \<mapsto>
               [\<lparr> to = on, guard = defaultGuard, action = (\<lambda>p event w. Return None (w + 1)) \<rparr>]],
          ''on'' \<mapsto>
            [''switch'' \<mapsto>
               [\<lparr> to = off, guard = defaultGuard, action = (\<lambda>p event w. Return None (w + 1)) \<rparr>]]],
       payload = (),
       processEventInvokeCounter = 0 \<rparr>"
  by (simp add: toggle_switch_def engine_defs)

subsection \<open>Nested calls\<close>

lemma ProcessEvent_in_flight:
  "processEventInvokeCounter fsm \<noteq> 0 \<Longrightarrow>
   ProcessEvent (Suc n) fsm event w = Some (Panicked ShouldNotReEnterPanic, w, fsm)"
  by (simp add: ProcessEvent_call_def Let_def)

lemma run_callback_nested_panics:
  assumes "\<And>event w. pe fsm event w = Some (Panicked ShouldNotReEnterPanic, w, fsm)"
  shows "run_callback pe fsm c =
           Some (fst (callback_outcome c), snd (callback_outcome c), fsm)"
  using assms by (induction c) simp_all

lemma range_transList_skip:
  assumes pe: "\<And>event w. pe fsm event w = Some (Panicked ShouldNotReEnterPanic, w, fsm)"
  shows "guards_rejected (payload fsm) event w pre = Some w1 \<Longrightarrow>
         range_transList pe fsm event w (pre @ rest) = range_transList pe fsm event w1 rest"
proof (induction pre arbitrary: w)
  case Nil
  then show ?case by simp
next
  case (Cons t pre)
  obtain out w' where o: "callback_outcome (guard t (payload fsm) event w) = (out, w')"
    by (cases "callback_outcome (guard t (payload fsm) event w)")
  with Cons.prems have out: "out = Returned False" and rest: "guards_rejected (payload fsm) event w' pre = Some w1"
    by (auto split: outcome.splits bool.splits)
  have "run_callback pe fsm (guard t (payload fsm) event w) = Some (Returned False, w', fsm)"
    using o out by (simp add: run_callback_nested_panics [of pe fsm, OF pe])
  then show ?case
    using Cons.IH [OF rest] by simp
qed

lemma range_transList_take:
  assumes pe: "\<And>event w. pe fsm event w = Some (Panicked ShouldNotReEnterPanic, w, fsm)"
      and g: "callback_outcome (guard t (payload fsm) event w) = (Returned True, w1)"
      and a: "callback_outcome (action t (payload fsm) event w1) = (Returned r, w2)"
  shows "range_transList pe fsm event w (t # post) =
           Some (Returned r, w2,
                 case r of None \<Rightarrow> fsm\<lparr>curState := FSMStateID (to t)\<rparr> | Some err \<Rightarrow> fsm)"
proof -
  have "run_callback pe fsm (guard t (payload fsm) event w) = Some (Returned True, w1, fsm)"
    using g by (simp add: run_callback_nested_panics [of pe fsm, OF pe])
  moreover have "run_callback pe fsm (action t (payload fsm) event w1) = Some (Returned r, w2, fsm)"
    using a by (simp add: run_callback_nested_panics [of pe fsm, OF pe])
  ultimately show ?thesis
    by (cases r) simp_all
qed

lemma range_transList_frame:
  assumes pe: "\<And>event w. pe fsm event w = Some (Panicked ShouldNotReEnterPanic, w, fsm)"
  shows "\<exists>out w' fsm'. range_transList pe fsm event w ts = Some (out, w', fsm') \<and>
           (fsm' = fsm \<or> (\<exists>t \<in> set ts. fsm' = fsm\<lparr>curState := FSMStateID (to t)\<rparr>))"
proof (induction ts arbitrary: w)
  case Nil
  then show ?case by simp
next
  case (Cons t ts)
  obtain out w1 where g: "run_callback pe fsm (guard t (payload fsm) event w) = Some (out, w1, fsm)"
    by (simp add: run_callback_nested_panics [of pe fsm, OF pe])
  show ?case
  proof (cases out)
    case (Panicked v)
    with g show ?thesis by simp
  next
    case (Returned b)
    show ?thesis
    proof (cases b)
      case False
      with g Returned Cons.IH [of w1] show ?thesis by auto
    next
      case True
      obtain out2 w2 where a: "run_callback pe fsm (action t (payload fsm) event w1) = Some (out2, w2, fsm)"
        by (simp add: run_callback_nested_panics [of pe fsm, OF pe])
      show ?thesis
      proof (cases out2)
        case (Panicked v)
        with g a Returned True show ?thesis by simp
      next
        case r: (Returned r)
        with g a Returned True show ?thesis by (cases r) simp_all
      qed
    qed
  qed
qed

lemma range_transList_pe_irrelevant:
  assumes pe: "\<And>event w. pe fsm event w = Some (Panicked ShouldNotReEnterPanic, w, fsm)"
      and pe': "\<And>event w. pe' fsm event w = Some (Panicked ShouldNotReEnterPanic, w, fsm)"
  shows "range_transList pe fsm event w ts = range_transList pe' fsm event w ts"
proof (induction ts arbitrary: w)
  case Nil
  then show ?case by simp
next
  case (Cons t ts)
  have g: "run_callback pe fsm (guard t (payload fsm) event w) = run_callback pe' fsm (guard t (payload fsm) event w)"
    by (simp add: run_callback_nested_panics [of pe fsm, OF pe] run_callback_nested_panics [of pe' fsm, OF pe'])
  have a: "\<And>w1. run_callback pe fsm (action t (payload fsm) event w1) = run_callback pe' fsm (action t (payload fsm) event w1)"
    by (simp add: run_callback_nested_panics [of pe fsm, OF pe] run_callback_nested_panics [of pe' fsm, OF pe'])
  have g': "\<exists>out w1. run_callback pe' fsm (guard t (payload fsm) event w) = Some (out, w1, fsm)"
    by (simp add: run_callback_nested_panics [of pe' fsm, OF pe'])
  then obtain out w1 where g'': "run_callback pe' fsm (guard t (payload fsm) event w) = Some (out, w1, fsm)" by blast
  have a': "\<exists>out w2. run_callback pe' fsm (action t (payload fsm) event w1) = Some (out, w2, fsm)"
    by (simp add: run_callback_nested_panics [of pe' fsm, OF pe'])
  show ?case
    using g g'' a [of w1] a' Cons.IH [of w1]
    by (auto split: outcome.splits bool.splits option.splits)
qed

lemma counter_roundtrip:
  "processEventInvokeCounter fsm = 0 \<Longrightarrow>
   fsm\<lparr>processEventInvokeCounter := 1\<rparr>\<lparr>processEventInvokeCounter := 0\<rparr> = fsm"
  "processEventInvokeCounter fsm = 0 \<Longrightarrow>
   fsm\<lparr>processEventInvokeCounter := 1, curState := s, processEventInvokeCounter := 0\<rparr> = fsm\<lparr>curState := s\<rparr>"
  by (cases fsm; simp)+

lemma ProcessEvent_top:
  assumes "processEventInvokeCounter fsm = 0"
  shows "ProcessEvent (Suc (Suc n)) fsm event w =
     (case transList_for fsm (curState fsm) (FSMEventID event) of
        None \<Rightarrow> Some (Returned (Some NoTransition), w, fsm)
      | Some ts \<Rightarrow>
         (case range_transList (ProcessEvent (Suc n)) (fsm\<lparr>processEventInvokeCounter := 1\<rparr>) event w ts of
            None \<Rightarrow> None
          | Some (out, w', fsm2) \<Rightarrow>
              Some (out, w', fsm2\<lparr>processEventInvokeCounter := processEventInvokeCounter fsm2 - 1\<rparr>)))"
  using assms counter_roundtrip(1) [OF assms]
  by (simp add: ProcessEvent_call_def lookup_and_range_def transList_for_def Let_def
           split: option.splits)

lemma in_flight_answers:
  "ProcessEvent (Suc n) (fsm\<lparr>processEventInvokeCounter := 1\<rparr>) event w =
     Some (Panicked ShouldNotReEnterPanic, w, fsm\<lparr>processEventInvokeCounter := 1\<rparr>)"
  by (rule ProcessEvent_in_flight) simp

subsection \<open>The first true guard wins\<close>

text \<open>
  Claim C1. An engine in which no call is in progress has a transition list for its
  current state and the event. The guards of a prefix of the list, called in registration
  order, all return false, the guard of the next transition returns true, and its action
  returns nil. Then \<^verbatim>\<open>ProcessEvent\<close> returns nil, the current state is the target of
  that transition, and the world is the one the action left: the guards of the prefix,
  the guard of the transition and its action ran, each once and in that order, and nothing
  of the rest of the list. With two transitions whose guards are false and true this is
  the second one (the witness below).
\<close>

theorem ProcessEvent_first_true_guard:
  assumes idle: "processEventInvokeCounter fsm = 0"
      and list: "transList_for fsm (curState fsm) (FSMEventID event) = Some (pre @ t # post)"
      and pre: "guards_rejected (payload fsm) event w pre = Some w1"
      and g: "callback_outcome (guard t (payload fsm) event w1) = (Returned True, w2)"
      and a: "callback_outcome (action t (payload fsm) event w2) = (Returned None, w3)"
  shows "ProcessEvent (Suc (Suc n)) fsm event w =
           Some (Returned None, w3, fsm\<lparr>curState := FSMStateID (to t)\<rparr>)"
proof -
  let ?f = "fsm\<lparr>processEventInvokeCounter := 1\<rparr>"
  let ?pe = "ProcessEvent (Suc n)"
  have ans: "\<And>event w. ?pe ?f event w = Some (Panicked ShouldNotReEnterPanic, w, ?f)"
    by (rule in_flight_answers)
  have "range_transList ?pe ?f event w (pre @ t # post) = range_transList ?pe ?f event w1 (t # post)"
    using range_transList_skip [of ?pe ?f, OF ans] pre by simp
  also have "\<dots> = Some (Returned None, w3, ?f\<lparr>curState := FSMStateID (to t)\<rparr>)"
    using range_transList_take [of ?pe ?f t event w1 w2 None w3 post, OF ans] g a by simp
  finally show ?thesis
    using idle list counter_roundtrip(2) [OF idle]
    by (simp add: ProcessEvent_top del: ProcessEvent.simps)
qed

theorem ProcessEvent_first_true_guard_witness:
  "ProcessEvent 2 guarded_switch Switch 0 =
     Some (Returned None, 111, guarded_switch\<lparr>curState := ''on''\<rparr>)"
  using ProcessEvent_first_true_guard
          [where fsm = guarded_switch and event = Switch and w = 0 and n = 0
             and pre = "[\<lparr> to = off, guard = (\<lambda>p event w. Return False (w + 1)), action = defaultAction \<rparr>]"
             and t = "\<lparr> to = on, guard = (\<lambda>p event w. Return True (w + 10)),
                        action = (\<lambda>p event w. Return None (w + 100)) \<rparr>"
             and post = "[]" and ?w1.0 = 1 and ?w2.0 = 11 and ?w3.0 = 111]
  by (simp add: guarded_switch_eq Switch_def switchEventID_def transList_for_def on_def
        numeral_2_eq_2 del: ProcessEvent.simps)

subsection \<open>An action that fails\<close>

text \<open>
  Claim C3. As before, but the action of the selected transition returns an error. Then
  \<^verbatim>\<open>ProcessEvent\<close> returns that error, the engine is exactly as it was (so
  \<^verbatim>\<open>CurrentState\<close> answers as before), and the world is the one the action left:
  whatever follows in the list was not tried.
\<close>

theorem ProcessEvent_action_error:
  assumes idle: "processEventInvokeCounter fsm = 0"
      and list: "transList_for fsm (curState fsm) (FSMEventID event) = Some (pre @ t # post)"
      and pre: "guards_rejected (payload fsm) event w pre = Some w1"
      and g: "callback_outcome (guard t (payload fsm) event w1) = (Returned True, w2)"
      and a: "callback_outcome (action t (payload fsm) event w2) = (Returned (Some err), w3)"
  shows "ProcessEvent (Suc (Suc n)) fsm event w = Some (Returned (Some err), w3, fsm)"
proof -
  let ?f = "fsm\<lparr>processEventInvokeCounter := 1\<rparr>"
  let ?pe = "ProcessEvent (Suc n)"
  have ans: "\<And>event w. ?pe ?f event w = Some (Panicked ShouldNotReEnterPanic, w, ?f)"
    by (rule in_flight_answers)
  have "range_transList ?pe ?f event w (pre @ t # post) = range_transList ?pe ?f event w1 (t # post)"
    using range_transList_skip [of ?pe ?f, OF ans] pre by simp
  also have "\<dots> = Some (Returned (Some err), w3, ?f)"
    using range_transList_take [of ?pe ?f t event w1 w2 "Some err" w3 post, OF ans] g a by simp
  finally show ?thesis
    using idle list counter_roundtrip(1) [OF idle]
    by (simp add: ProcessEvent_top del: ProcessEvent.simps)
qed

theorem ProcessEvent_action_error_witness:
  "ProcessEvent 2 failing_switch Switch 0 =
     Some (Returned (Some (errors_New ''boom'')), 110, failing_switch) \<and>
   CurrentState failing_switch = Some off"
  using ProcessEvent_action_error
          [where fsm = failing_switch and event = Switch and w = 0 and n = 0
             and pre = "[]"
             and t = "\<lparr> to = on, guard = (\<lambda>p event w. Return True (w + 10)),
                        action = (\<lambda>p event w. Return (Some (errors_New ''boom'')) (w + 100)) \<rparr>"
             and post = "[\<lparr> to = on, guard = (\<lambda>p event w. Return True (w + 1)),
                            action = (\<lambda>p event w. Return None (w + 1000)) \<rparr>]"
             and ?w1.0 = 0 and ?w2.0 = 10 and ?w3.0 = 110 and err = "errors_New ''boom''"]
  by (simp add: failing_switch_eq Switch_def switchEventID_def transList_for_def CurrentState_def
        numeral_2_eq_2 del: ProcessEvent.simps)

subsection \<open>No transition\<close>

text \<open>
  Claim C4. When the table has no list for the current state and the event, or every
  guard of the list returns false, \<^verbatim>\<open>ProcessEvent\<close> returns \<open>NoTransition\<close> and
  the engine is unchanged.
\<close>

theorem ProcessEvent_NoTransition:
  assumes idle: "processEventInvokeCounter fsm = 0"
      and none: "transList_for fsm (curState fsm) (FSMEventID event) = None \<and> w' = w \<or>
                 (\<exists>ts. transList_for fsm (curState fsm) (FSMEventID event) = Some ts \<and>
                       guards_rejected (payload fsm) event w ts = Some w')"
  shows "ProcessEvent (Suc (Suc n)) fsm event w = Some (Returned (Some NoTransition), w', fsm)"
  using none
proof (elim disjE conjE exE)
  assume "transList_for fsm (curState fsm) (FSMEventID event) = None" "w' = w"
  then show ?thesis
    using idle by (simp add: ProcessEvent_top del: ProcessEvent.simps)
next
  fix ts
  assume list: "transList_for fsm (curState fsm) (FSMEventID event) = Some ts"
     and rej: "guards_rejected (payload fsm) event w ts = Some w'"
  let ?f = "fsm\<lparr>processEventInvokeCounter := 1\<rparr>"
  let ?pe = "ProcessEvent (Suc n)"
  have ans: "\<And>event w. ?pe ?f event w = Some (Panicked ShouldNotReEnterPanic, w, ?f)"
    by (rule in_flight_answers)
  have "range_transList ?pe ?f event w (ts @ []) = range_transList ?pe ?f event w' []"
    by (rule range_transList_skip [of ?pe ?f, OF ans]) (simp add: rej)
  then have "range_transList ?pe ?f event w ts = Some (Returned (Some NoTransition), w', ?f)"
    by simp
  then show ?thesis
    using idle list counter_roundtrip(1) [OF idle]
    by (simp add: ProcessEvent_top del: ProcessEvent.simps)
qed

theorem ProcessEvent_NoTransition_witness:
  "ProcessEvent 2 guarded_switch (Event ''other'' 0) 0 =
     Some (Returned (Some NoTransition), 0, guarded_switch) \<and>
   ProcessEvent 2 (guarded_switch\<lparr>curState := ''on''\<rparr>) Switch 0 =
     Some (Returned (Some NoTransition), 1, guarded_switch\<lparr>curState := ''on''\<rparr>)"
  using ProcessEvent_NoTransition
          [where fsm = guarded_switch and event = "Event ''other'' 0" and w = 0 and w' = 0 and n = 0]
        ProcessEvent_NoTransition
          [where fsm = "guarded_switch\<lparr>curState := ''on''\<rparr>" and event = Switch and w = 0
             and w' = 1 and n = 0]
  by (simp add: guarded_switch_eq Switch_def switchEventID_def transList_for_def
        numeral_2_eq_2 del: ProcessEvent.simps)

subsection \<open>What a call can change\<close>

lemma ProcessEvent_frame:
  assumes idle: "processEventInvokeCounter fsm = 0"
  shows "\<exists>out w' fsm'. ProcessEvent (Suc (Suc n)) fsm event w = Some (out, w', fsm') \<and>
           (fsm' = fsm \<or>
            (\<exists>ts t. transList_for fsm (curState fsm) (FSMEventID event) = Some ts \<and> t \<in> set ts \<and>
                    fsm' = fsm\<lparr>curState := FSMStateID (to t)\<rparr>))"
proof (cases "transList_for fsm (curState fsm) (FSMEventID event)")
  case None
  then show ?thesis
    using idle by (simp add: ProcessEvent_top del: ProcessEvent.simps)
next
  case (Some ts)
  let ?f = "fsm\<lparr>processEventInvokeCounter := 1\<rparr>"
  let ?pe = "ProcessEvent (Suc n)"
  have ans: "\<And>event w. ?pe ?f event w = Some (Panicked ShouldNotReEnterPanic, w, ?f)"
    by (rule in_flight_answers)
  obtain out w' fsm2 where r: "range_transList ?pe ?f event w ts = Some (out, w', fsm2)"
    and f2: "fsm2 = ?f \<or> (\<exists>t \<in> set ts. fsm2 = ?f\<lparr>curState := FSMStateID (to t)\<rparr>)"
    using range_transList_frame [of ?pe ?f event w ts, OF ans] by blast
  from f2 show ?thesis
  proof
    assume "fsm2 = ?f"
    then show ?thesis
      using idle Some r counter_roundtrip(1) [OF idle]
      by (simp add: ProcessEvent_top del: ProcessEvent.simps)
  next
    assume "\<exists>t \<in> set ts. fsm2 = ?f\<lparr>curState := FSMStateID (to t)\<rparr>"
    then obtain t where t: "t \<in> set ts" "fsm2 = ?f\<lparr>curState := FSMStateID (to t)\<rparr>" by blast
    have "ProcessEvent (Suc (Suc n)) fsm event w = Some (out, w', fsm\<lparr>curState := FSMStateID (to t)\<rparr>)"
      using idle Some r t counter_roundtrip(2) [OF idle]
      by (simp add: ProcessEvent_top del: ProcessEvent.simps)
    with Some t show ?thesis by blast
  qed
qed


lemma ProcessEvent_nested_calls_panic:
  assumes idle: "processEventInvokeCounter fsm = 0"
  shows "ProcessEvent (Suc (Suc n)) fsm event w =
           ProcessEvent_call (\<lambda>fsm' event' w'. Some (Panicked ShouldNotReEnterPanic, w', fsm')) fsm event w"
proof -
  let ?f = "fsm\<lparr>processEventInvokeCounter := 1\<rparr>"
  have "range_transList (ProcessEvent (Suc n)) ?f event w ts =
        range_transList (\<lambda>fsm' event' w'. Some (Panicked ShouldNotReEnterPanic, w', fsm')) ?f event w ts" for ts
    by (rule range_transList_pe_irrelevant) (simp_all add: in_flight_answers del: ProcessEvent.simps)
  then have "ProcessEvent_call (ProcessEvent (Suc n)) fsm event w =
        ProcessEvent_call (\<lambda>fsm' event' w'. Some (Panicked ShouldNotReEnterPanic, w', fsm')) fsm event w"
    using idle
    by (simp add: ProcessEvent_call_def lookup_and_range_def Let_def del: ProcessEvent.simps
             split: option.splits)
  then show ?thesis by simp
qed

lemma toggle_off:
  "ProcessEvent 2 toggle_switch Switch w = Some (Returned None, w + 1, toggle_switch\<lparr>curState := ''on''\<rparr>)"
  by (simp add: toggle_switch_eq Switch_def switchEventID_def ProcessEvent_call_def
        lookup_and_range_def defaultGuard_def on_def numeral_2_eq_2)

lemma toggle_on:
  "ProcessEvent 2 (toggle_switch\<lparr>curState := ''on''\<rparr>) Switch w =
     Some (Returned None, w + 1, toggle_switch)"
  by (simp add: toggle_switch_eq Switch_def switchEventID_def ProcessEvent_call_def
        lookup_and_range_def defaultGuard_def off_def numeral_2_eq_2)

lemma ProcessEvent_depth:
  "ProcessEvent (Suc (Suc n)) fsm event w = ProcessEvent 2 fsm event w"
proof (cases "processEventInvokeCounter fsm = 0")
  case True
  from ProcessEvent_nested_calls_panic [OF True, of n event w]
       ProcessEvent_nested_calls_panic [OF True, of 0 event w]
  show ?thesis by (simp only: numeral_2_eq_2)
next
  case False
  from ProcessEvent_in_flight [OF False, of "Suc n" event w]
       ProcessEvent_in_flight [OF False, of "Suc 0" event w]
  show ?thesis by (simp only: numeral_2_eq_2)
qed

subsection \<open>Registration\<close>

text \<open>
  Claim C8. \<^verbatim>\<open>AddState\<close> on a registered identifier and \<^verbatim>\<open>AddEvent\<close> on a
  registered event return \<open>AlreadyExists\<close> and change nothing; otherwise they return
  nil and the state or event is registered.
\<close>

theorem AddState_AddEvent_AlreadyExists:
  "(FSMStateID state \<in> dom (states fsm) \<longrightarrow> AddState fsm state = (Some AlreadyExists, fsm)) \<and>
   (FSMStateID state \<notin> dom (states fsm) \<longrightarrow>
      AddState fsm state = (None, fsm\<lparr>states := (states fsm)(FSMStateID state \<mapsto> state)\<rparr>) \<and>
      HasState (snd (AddState fsm state)) state) \<and>
   (eventID \<in> dom (events fsm) \<longrightarrow> AddEvent fsm eventID = (Some AlreadyExists, fsm)) \<and>
   (eventID \<notin> dom (events fsm) \<longrightarrow>
      AddEvent fsm eventID = (None, fsm\<lparr>events := (events fsm)(eventID \<mapsto> 0)\<rparr>) \<and>
      HasEvent (snd (AddEvent fsm eventID)) eventID)"
  by (auto simp: AddState_def AddEvent_def HasState_def HasEvent_def split: option.splits)

theorem AddState_AddEvent_AlreadyExists_witness:
  "AddState (NewFSM off () :: (nat, unit) FSM) (State ''off'' 7) = (Some AlreadyExists, NewFSM off ()) \<and>
   AddState (NewFSM off () :: (nat, unit) FSM) on =
     (None, (NewFSM off ())\<lparr>states := [''off'' \<mapsto> off, ''on'' \<mapsto> on]\<rparr>) \<and>
   AddEvent guarded_switch ''switch'' = (Some AlreadyExists, guarded_switch) \<and>
   AddEvent guarded_switch ''reset'' =
     (None, guarded_switch\<lparr>events := [''switch'' \<mapsto> 0, ''reset'' \<mapsto> 0]\<rparr>)"
  using AddState_AddEvent_AlreadyExists
          [where fsm = "NewFSM off () :: (nat, unit) FSM" and state = "State ''off'' 7"]
        AddState_AddEvent_AlreadyExists
          [where fsm = "NewFSM off () :: (nat, unit) FSM" and state = on]
        AddState_AddEvent_AlreadyExists
          [where fsm = guarded_switch and eventID = "''switch''"]
        AddState_AddEvent_AlreadyExists
          [where fsm = guarded_switch and eventID = "''reset''"]
  by (simp add: NewFSM_def off_def on_def guarded_switch_eq)

text \<open>
  Claim C10. \<^verbatim>\<open>NewFSM\<close> registers the initial state: \<^verbatim>\<open>CurrentState\<close> returns it,
  \<^verbatim>\<open>HasState\<close> holds of it, and \<^verbatim>\<open>AddState\<close> of any state with its identifier
  returns \<open>AlreadyExists\<close>.
\<close>

theorem NewFSM_registers_initial_state:
  "CurrentState (NewFSM s p) = Some s \<and>
   HasState (NewFSM s p) s \<and>
   (FSMStateID s' = FSMStateID s \<longrightarrow> AddState (NewFSM s p) s' = (Some AlreadyExists, NewFSM s p))"
  by (simp add: CurrentState_def NewFSM_def HasState_def AddState_def)

theorem NewFSM_registers_initial_state_witness:
  "CurrentState (NewFSM off () :: (nat, unit) FSM) = Some off \<and>
   HasState (NewFSM off () :: (nat, unit) FSM) off \<and>
   AddState (NewFSM off () :: (nat, unit) FSM) (State ''off'' 7) = (Some AlreadyExists, NewFSM off ())"
  using NewFSM_registers_initial_state [where s = off and p = "()" and s' = "State ''off'' 7"]
  by (simp add: off_def)

text \<open>
  Claim C7. When one of from, event and to is not registered, \<^verbatim>\<open>AddTransition\<close>
  returns an error whose message is "state", the identifier of a missing state, "not
  found", or "event", the missing event identifier, "not found", and the engine is
  unchanged. Otherwise it returns nil, only the table changes, the list for (from,
  event) is the old list followed by the one new transition (with the defaults for a
  nil guard or action), and the list of every other pair is as it was.
\<close>

theorem AddTransition_checks_and_appends:
  "(\<not> HasState fsm from' \<or> \<not> HasEvent fsm evId \<or> \<not> HasState fsm to' \<longrightarrow>
      (\<exists>e. AddTransition fsm from' evId to' action' guard' = (Some e, fsm) \<and>
           (e = errors_New (''state '' @ FSMStateID from' @ '' not found'') \<and>
              \<not> HasState fsm from' \<or>
            e = errors_New (''event '' @ evId @ '' not found'') \<and> \<not> HasEvent fsm evId \<or>
            e = errors_New (''state '' @ FSMStateID to' @ '' not found'') \<and>
              \<not> HasState fsm to'))) \<and>
   (HasState fsm from' \<and> HasEvent fsm evId \<and> HasState fsm to' \<longrightarrow>
      (\<exists>fsm'. AddTransition fsm from' evId to' action' guard' = (None, fsm') \<and>
         fsm' = fsm\<lparr>transitions := transitions fsm'\<rparr> \<and>
         transList_for fsm' (FSMStateID from') evId =
           Some ((case transList_for fsm (FSMStateID from') evId of None \<Rightarrow> [] | Some l \<Rightarrow> l) @
                 [\<lparr> to = to',
                    guard = (case guard' of None \<Rightarrow> defaultGuard | Some g \<Rightarrow> g),
                    action = (case action' of None \<Rightarrow> defaultAction | Some a \<Rightarrow> a) \<rparr>]) \<and>
         (\<forall>s e. (s, e) \<noteq> (FSMStateID from', evId) \<longrightarrow>
                transList_for fsm' s e = transList_for fsm s e)))"
  by (auto simp: AddTransition_def Let_def transList_for_def stateNotFound_def eventNotFound_def
        split: option.splits)

theorem AddTransition_checks_and_appends_witness:
  "AddTransition guarded_switch (State ''broken'' 0) ''switch'' on None None =
     (Some (errors_New ''state broken not found''), guarded_switch) \<and>
   AddTransition guarded_switch off ''reset'' on None None =
     (Some (errors_New ''event reset not found''), guarded_switch) \<and>
   transList_for (snd (AddTransition guarded_switch on ''switch'' on None None)) ''on'' ''switch'' =
     Some [\<lparr> to = off, guard = (\<lambda>p event w. Return False (w + 1)), action = defaultAction \<rparr>,
           \<lparr> to = on, guard = defaultGuard, action = defaultAction \<rparr>]"
  using AddTransition_checks_and_appends
          [where fsm = guarded_switch and from' = "State ''broken'' 0" and evId = "''switch''"
             and to' = on and action' = None and guard' = None]
        AddTransition_checks_and_appends
          [where fsm = guarded_switch and from' = off and evId = "''reset''"
             and to' = on and action' = None and guard' = None]
        AddTransition_checks_and_appends
          [where fsm = guarded_switch and from' = on and evId = "''switch''"
             and to' = on and action' = None and guard' = None]
  by (auto simp: guarded_switch_eq HasState_def HasEvent_def off_def on_def stateNotFound_def
        eventNotFound_def transList_for_def)

subsection \<open>The invariant of the engine\<close>

lemma engine_inv_NewFSM: "engine_inv (NewFSM s p)"
  by (simp add: engine_inv_def NewFSM_def transList_for_def)

lemma engine_inv_AddState: "engine_inv fsm \<Longrightarrow> engine_inv (snd (AddState fsm state))"
  by (auto simp: engine_inv_def AddState_def transList_for_def)

lemma engine_inv_AddEvent: "engine_inv fsm \<Longrightarrow> engine_inv (snd (AddEvent fsm eventID))"
  by (auto simp: engine_inv_def AddEvent_def transList_for_def)

lemma transList_for_update:
  "transList_for
     (fsm\<lparr>transitions := (transitions fsm)
        (a \<mapsto> (case transitions fsm a of None \<Rightarrow> Map.empty | Some m \<Rightarrow> m)(e \<mapsto> l))\<rparr>) s e' =
   (if s = a \<and> e' = e then Some l else transList_for fsm s e')"
  by (simp add: transList_for_def split: option.splits)

lemma AddTransition_registered:
  assumes "HasState fsm from" "HasEvent fsm evId" "HasState fsm to'"
  shows "AddTransition fsm from evId to' action' guard' =
     (None, fsm\<lparr>transitions := (transitions fsm)
        (FSMStateID from \<mapsto>
           (case transitions fsm (FSMStateID from) of None \<Rightarrow> Map.empty | Some m \<Rightarrow> m)
           (evId \<mapsto>
              (case transList_for fsm (FSMStateID from) evId of None \<Rightarrow> [] | Some l \<Rightarrow> l) @
              [\<lparr> to = to',
                 guard = (case guard' of None \<Rightarrow> defaultGuard | Some g \<Rightarrow> g),
                 action = (case action' of None \<Rightarrow> defaultAction | Some a \<Rightarrow> a) \<rparr>]))\<rparr>)"
  using assms by (simp add: AddTransition_def Let_def transList_for_def split: option.splits)

lemma engine_inv_AddTransition:
  assumes inv: "engine_inv fsm"
  shows "engine_inv (snd (AddTransition fsm from evId to' action' guard'))"
proof (cases "HasState fsm from \<and> HasEvent fsm evId \<and> HasState fsm to'")
  case False
  then show ?thesis
    using inv by (auto simp: AddTransition_def Let_def)
next
  case True
  then have reg: "FSMStateID to' \<in> dom (states fsm)"
    by (auto simp: HasState_def split: option.splits)
  have old: "t \<in> set l \<Longrightarrow> transList_for fsm s e = Some l \<Longrightarrow> FSMStateID (to t) \<in> dom (states fsm)"
    for t l s e
    using inv unfolding engine_inv_def by blast
  have old': "t \<in> set (case transList_for fsm s e of None \<Rightarrow> [] | Some l \<Rightarrow> l) \<Longrightarrow>
        FSMStateID (to t) \<in> dom (states fsm)" for t s e
    using old [of t _ s e] by (cases "transList_for fsm s e") auto
  show ?thesis
    unfolding engine_inv_def
  proof (intro conjI allI impI)
    show "curState (snd (AddTransition fsm from evId to' action' guard'))
           \<in> dom (states (snd (AddTransition fsm from evId to' action' guard')))"
      using inv True by (simp add: AddTransition_registered engine_inv_def)
    show "processEventInvokeCounter (snd (AddTransition fsm from evId to' action' guard')) = 0"
      using inv True by (simp add: AddTransition_registered engine_inv_def)
  next
    fix s e ts t
    assume l: "transList_for (snd (AddTransition fsm from evId to' action' guard')) s e = Some ts"
       and t: "t \<in> set ts"
    have "FSMStateID (to t) \<in> dom (states fsm)"
    proof (cases "s = FSMStateID from \<and> e = evId")
      case False
      with l True have "transList_for fsm s e = Some ts"
        by (auto simp: AddTransition_registered transList_for_update split: if_splits)
      with t show ?thesis by (rule old)
    next
      case same: True
      with l True have "ts =
          (case transList_for fsm (FSMStateID from) evId of None \<Rightarrow> [] | Some l \<Rightarrow> l) @
          [\<lparr> to = to',
             guard = (case guard' of None \<Rightarrow> defaultGuard | Some g \<Rightarrow> g),
             action = (case action' of None \<Rightarrow> defaultAction | Some a \<Rightarrow> a) \<rparr>]"
        by (simp add: AddTransition_registered transList_for_update)
      with t have "t \<in> set (case transList_for fsm (FSMStateID from) evId of None \<Rightarrow> [] | Some l \<Rightarrow> l)
          \<or> to t = to'"
        by auto
      then show ?thesis
        using old' [of t "FSMStateID from" evId] reg by auto
    qed
    then show "FSMStateID (to t) \<in> dom (states (snd (AddTransition fsm from evId to' action' guard')))"
      using True by (simp add: AddTransition_registered)
  qed
qed

lemma engine_inv_ProcessEvent:
  assumes inv: "engine_inv fsm"
      and run: "ProcessEvent (Suc (Suc n)) fsm event w = Some (out, w', fsm')"
  shows "engine_inv fsm'"
proof -
  have idle: "processEventInvokeCounter fsm = 0"
    using inv by (simp add: engine_inv_def)
  from ProcessEvent_frame [OF idle, of n event w] run
  consider "fsm' = fsm"
    | ts t where "transList_for fsm (curState fsm) (FSMEventID event) = Some ts" "t \<in> set ts"
        "fsm' = fsm\<lparr>curState := FSMStateID (to t)\<rparr>"
    by auto
  then show ?thesis
  proof cases
    case 1
    with inv show ?thesis by simp
  next
    case 2
    then have "FSMStateID (to t) \<in> dom (states fsm)"
      using inv unfolding engine_inv_def by blast
    with 2 inv show ?thesis
      by (simp add: engine_inv_def transList_for_def)
  qed
qed

lemma engine_inv_perform:
  "engine_inv fsm \<Longrightarrow> engine_inv (fst (perform (fsm, w) c))"
proof (cases c)
  case (CallProcessEvent event)
  assume inv: "engine_inv fsm"
  show ?thesis
  proof (cases "ProcessEvent (Suc (Suc 0)) fsm event w")
    case None
    with inv CallProcessEvent show ?thesis by (simp add: numeral_2_eq_2 del: ProcessEvent.simps)
  next
    case (Some r)
    obtain out w' fsm' where r: "r = (out, w', fsm')" by (cases r)
    with Some engine_inv_ProcessEvent [OF inv] have "engine_inv fsm'" by blast
    with Some r CallProcessEvent show ?thesis by (simp add: numeral_2_eq_2 del: ProcessEvent.simps)
  qed
qed (simp_all add: engine_inv_AddState engine_inv_AddEvent engine_inv_AddTransition)

lemma states_perform:
  assumes "states (fst (perform (fsm, w) c)) k = Some s'"
  shows "states fsm k = Some s' \<or> c = CallAddState s'"
proof (cases c)
  case (CallAddState st)
  with assms show ?thesis by (auto simp: AddState_def split: if_splits)
next
  case (CallAddEvent e)
  with assms show ?thesis by (auto simp: AddEvent_def split: if_splits)
next
  case (CallAddTransition a b c d e)
  with assms show ?thesis by (auto simp: AddTransition_def Let_def split: if_splits)
next
  case (CallProcessEvent event)
  show ?thesis
  proof (cases "processEventInvokeCounter fsm = 0")
    case True
    from ProcessEvent_frame [OF True, of 0 event w] assms CallProcessEvent show ?thesis
      by (auto simp: numeral_2_eq_2 simp del: ProcessEvent.simps)
  next
    case False
    from ProcessEvent_in_flight [OF False, of "Suc 0" event w] assms CallProcessEvent show ?thesis
      by (auto simp: numeral_2_eq_2 simp del: ProcessEvent.simps)
  qed
qed

lemma run_calls_snoc: "run_calls start (calls @ [c]) = perform (run_calls start calls) c"
  by (simp add: run_calls_def)

lemma engine_inv_run_calls: "engine_inv (fst (run_calls (NewFSM s p, w) calls))"
proof (induction calls rule: rev_induct)
  case Nil
  then show ?case by (simp add: run_calls_def engine_inv_NewFSM)
next
  case (snoc c calls)
  obtain fsm w' where r: "run_calls (NewFSM s p, w) calls = (fsm, w')"
    by (cases "run_calls (NewFSM s p, w) calls")
  with snoc engine_inv_perform [of fsm w' c] show ?case
    by (simp add: run_calls_snoc)
qed

lemma states_run_calls:
  "states (fst (run_calls (NewFSM s p, w) calls)) k = Some s' \<Longrightarrow>
   s' = s \<or> CallAddState s' \<in> set calls"
proof (induction calls arbitrary: k s' rule: rev_induct)
  case Nil
  then show ?case by (simp add: run_calls_def NewFSM_def split: if_splits)
next
  case (snoc c calls)
  obtain fsm w' where r: "run_calls (NewFSM s p, w) calls = (fsm, w')"
    by (cases "run_calls (NewFSM s p, w) calls")
  with snoc.prems have "states (fst (perform (fsm, w') c)) k = Some s'"
    by (simp add: run_calls_snoc)
  then have "states fsm k = Some s' \<or> c = CallAddState s'"
    by (rule states_perform)
  with snoc.IH [of k s'] r show ?case by auto
qed

subsection \<open>The current state is registered\<close>

text \<open>
  Claim C6. After \<^verbatim>\<open>NewFSM\<close> and any sequence of calls of \<^verbatim>\<open>AddState\<close>,
  \<^verbatim>\<open>AddEvent\<close>, \<^verbatim>\<open>AddTransition\<close> and \<^verbatim>\<open>ProcessEvent\<close>, the current
  state identifier is a key of the state registry, and \<^verbatim>\<open>CurrentState\<close> returns a state
  that was registered before: the initial one or one passed to \<^verbatim>\<open>AddState\<close>.
\<close>

theorem CurrentState_always_registered:
  "curState (fst (run_calls (NewFSM s p, w) calls))
     \<in> dom (states (fst (run_calls (NewFSM s p, w) calls))) \<and>
   (\<exists>s'. CurrentState (fst (run_calls (NewFSM s p, w) calls)) = Some s' \<and>
         (s' = s \<or> CallAddState s' \<in> set calls))"
proof -
  let ?f = "fst (run_calls (NewFSM s p, w) calls)"
  have "curState ?f \<in> dom (states ?f)"
    using engine_inv_run_calls [of s p w calls] by (simp add: engine_inv_def)
  then obtain s' where s': "states ?f (curState ?f) = Some s'" by blast
  then have "s' = s \<or> CallAddState s' \<in> set calls"
    by (rule states_run_calls)
  with s' \<open>curState ?f \<in> dom (states ?f)\<close> show ?thesis
    by (simp add: CurrentState_def)
qed

theorem CurrentState_always_registered_witness:
  "CurrentState (fst (run_calls (NewFSM off (), 0 :: nat)
      [CallAddState on, CallAddEvent switchEventID,
       CallAddTransition off switchEventID on None None,
       CallProcessEvent Switch])) = Some on"
proof -
  let ?calls = "[CallAddState on, CallAddEvent switchEventID,
       CallAddTransition off switchEventID on None None,
       CallProcessEvent Switch] :: (nat, unit) call list"
  from CurrentState_always_registered [of off "()" "0 :: nat" ?calls]
  obtain s' where "CurrentState (fst (run_calls (NewFSM off (), 0) ?calls)) = Some s'"
    and "s' = off \<or> CallAddState s' \<in> set ?calls"
    by blast
  moreover have "curState (fst (run_calls (NewFSM off (), 0) ?calls)) = ''on''"
    by (simp add: engine_defs ProcessEvent_call_def lookup_and_range_def numeral_2_eq_2)
  moreover have "states (fst (run_calls (NewFSM off (), 0) ?calls)) ''on'' = Some on"
    by (simp add: engine_defs ProcessEvent_call_def lookup_and_range_def numeral_2_eq_2)
  ultimately show ?thesis
    by (simp add: CurrentState_def)
qed

subsection \<open>Reentrancy\<close>




section \<open>Properties of the preemptive scheduler\<close>

subsection \<open>Every entry is in one place\<close>

lemma step_Submit:
  "step (Submit event) p = Some p' \<longleftrightarrow>
     \<not> crashed p \<and> dispatcher p = D_receive \<and>
     p' = p\<lparr> dispatcher := D_swap (Some \<lparr> ev = event, ident = allocated p \<rparr>),
             allocated := Suc (allocated p) \<rparr>"
  by auto

lemma fresh_entry:
  assumes "sched_inv p" 
  shows "\<lparr> ev = event, ident = allocated p \<rparr> \<notin> set_option (nextEntry p) \<union> displaced p \<union> claimed p"
proof
  assume "\<lparr> ev = event, ident = allocated p \<rparr> \<in> set_option (nextEntry p) \<union> displaced p \<union> claimed p"
  then have "ident \<lparr> ev = event, ident = allocated p \<rparr> < allocated p"
    using assms unfolding sched_inv_def by blast
  then show False by simp
qed

lemma sched_invI:
  assumes "incoming p' \<subseteq> A" "set_option (nextEntry p') \<subseteq> B" "displaced p' \<subseteq> C" "claimed p' \<subseteq> D"
      and "\<And>e. e \<in> A \<union> B \<union> C \<union> D \<Longrightarrow> ident e < allocated p'"
      and "A \<inter> (B \<union> C \<union> D) = {}" "B \<inter> (C \<union> D) = {}" "C \<inter> D = {}"
  shows "sched_inv p'"
  unfolding sched_inv_def
proof (intro conjI ballI)
  fix e assume "e \<in> incoming p' \<union> set_option (nextEntry p') \<union> displaced p' \<union> claimed p'"
  with assms(1-4) have "e \<in> A \<union> B \<union> C \<union> D" by blast
  then show "ident e < allocated p'" by (rule assms(5))
next
  show "incoming p' \<inter> (set_option (nextEntry p') \<union> displaced p' \<union> claimed p') = {}"
    using assms(1-4) assms(6) by blast
  show "set_option (nextEntry p') \<inter> (displaced p' \<union> claimed p') = {}"
    using assms(2-4) assms(7) by blast
  show "displaced p' \<inter> claimed p' = {}"
    using assms(3-4) assms(8) by blast
qed

lemma sched_invD:
  assumes "sched_inv p"
  shows "\<And>e. e \<in> incoming p \<union> set_option (nextEntry p) \<union> displaced p \<union> claimed p \<Longrightarrow> ident e < allocated p"
    and "incoming p \<inter> (set_option (nextEntry p) \<union> displaced p \<union> claimed p) = {}"
    and "set_option (nextEntry p) \<inter> (displaced p \<union> claimed p) = {}"
    and "displaced p \<inter> claimed p = {}"
  using assms unfolding sched_inv_def by blast+

lemma sched_inv_submit:
  assumes inv: "sched_inv p" and st: "step (Submit event) p = Some p'"
  shows "sched_inv p'"
proof -
  let ?e = "\<lparr> ev = event, ident = allocated p \<rparr>"
  from st have p': "p' = p\<lparr> dispatcher := D_swap (Some ?e), allocated := Suc (allocated p) \<rparr>"
    and d: "dispatcher p = D_receive"
    by (simp_all only: step_Submit)
  have inc: "incoming p = {}"
    using d by (simp add: incoming_def)
  have sets: "incoming p' = {?e}" "displaced p' = displaced p"
       "claimed p' = claimed p" "nextEntry p' = nextEntry p" "allocated p' = Suc (allocated p)"
    using d by (simp_all add: p' incoming_def displaced_def claimed_def)
  show ?thesis
  proof (rule sched_invI [of p' "{?e}" "set_option (nextEntry p)" "displaced p" "claimed p"])
    fix e assume "e \<in> {?e} \<union> set_option (nextEntry p) \<union> displaced p \<union> claimed p"
    then have "e = ?e \<or> ident e < allocated p"
      using sched_invD(1) [OF inv, of e] by blast
    then show "ident e < allocated p'"
      by (auto simp: sets)
  next
    show "{?e} \<inter> (set_option (nextEntry p) \<union> displaced p \<union> claimed p) = {}"
      using fresh_entry [OF inv, of event] by blast
  qed (simp_all add: sets sched_invD(3,4) [OF inv])
qed

lemma sched_inv_same_places:
  assumes inv: "sched_inv p"
      and "incoming p' \<subseteq> incoming p" "nextEntry p' = nextEntry p" "displaced p' = displaced p"
          "claimed p' = claimed p" "allocated p' = allocated p"
  shows "sched_inv p'"
proof (rule sched_invI [of p' "incoming p" "set_option (nextEntry p)" "displaced p" "claimed p"])
  fix e assume "e \<in> incoming p \<union> set_option (nextEntry p) \<union> displaced p \<union> claimed p"
  then show "ident e < allocated p'"
    using sched_invD(1) [OF inv, of e] assms(6) by simp
qed (simp_all add: assms(2-5) sched_invD(2,3,4) [OF inv])

lemma sched_inv_close:
  assumes inv: "sched_inv p" and st: "step Close p = Some p'"
  shows "sched_inv p'"
proof -
  from st have p': "p' = p\<lparr> dispatcher := D_swap None \<rparr>" and d: "dispatcher p = D_receive"
    by (auto split: if_splits)
  show ?thesis
    using inv by (rule sched_inv_same_places) (simp_all add: p' d incoming_def displaced_def claimed_def)
qed

lemma sched_inv_dispatcher:
  assumes inv: "sched_inv p" and st: "dispatcher_step p = Some p'"
  shows "sched_inv p'"
proof (cases "dispatcher p")
  case D_receive
  with st show ?thesis by simp
next
  case (D_swap x)
  with st have p': "p' = p\<lparr> nextEntry := x,
                  exitFlag := (if x = None then True else exitFlag p),
                  dispatcher := D_complete (nextEntry p) x \<rparr>"
    by simp
  have inc: "incoming p = set_option x"
    using D_swap by (auto simp: incoming_def)
  have sets: "incoming p' = {}" "nextEntry p' = x"
       "displaced p' = displaced p \<union> set_option (nextEntry p)"
       "claimed p' = claimed p" "allocated p' = allocated p"
    using D_swap by (auto simp: p' incoming_def displaced_def claimed_def)
  show ?thesis
  proof (rule sched_invI [of p' "{}" "incoming p" "displaced p \<union> set_option (nextEntry p)" "claimed p"])
    fix e assume "e \<in> {} \<union> incoming p \<union> (displaced p \<union> set_option (nextEntry p)) \<union> claimed p"
    then show "ident e < allocated p'"
      using sched_invD(1) [OF inv, of e] sets(5) by auto
  next
    show "incoming p \<inter> (displaced p \<union> set_option (nextEntry p) \<union> claimed p) = {}"
      using sched_invD(2) [OF inv] by blast
    show "(displaced p \<union> set_option (nextEntry p)) \<inter> claimed p = {}"
      using sched_invD(3,4) [OF inv] by blast
  qed (simp_all add: sets inc)
next
  case (D_complete prev x)
  with st have p': "p' = p\<lparr> effects := effects p @
                    (case prev of None \<Rightarrow> [] | Some prev \<Rightarrow> [Preempt prev]),
                  dispatcher := (if x = None then D_wait else D_receive) \<rparr>"
    by simp
  show ?thesis
    using inv
  proof (rule sched_inv_same_places)
    show "displaced p' = displaced p"
      using D_complete by (auto simp: p' displaced_def split: option.splits)
  qed (auto simp: p' D_complete incoming_def claimed_def split: option.splits)
next
  case D_wait
  with st have p': "p' = p\<lparr>dispatcher := D_done\<rparr>"
    by (simp split: if_splits)
  show ?thesis
    using inv
    by (rule sched_inv_same_places) (auto simp: p' D_wait incoming_def displaced_def claimed_def)
next
  case D_done
  with st show ?thesis by simp
qed

lemma sched_inv_worker:
  assumes inv: "sched_inv p" and st: "worker_step p = Some p'"
  shows "sched_inv p'"
proof (cases "worker p")
  case W_wait
  show ?thesis
  proof (cases "exitFlag p")
    case True
    with st W_wait have p': "p' = p\<lparr>worker := W_exited\<rparr>" by simp
    show ?thesis
      using inv
      by (rule sched_inv_same_places) (auto simp: p' W_wait incoming_def displaced_def claimed_def)
  next
    case False
    with st W_wait obtain e where e: "nextEntry p = Some e"
      and p': "p' = p\<lparr>worker := W_claimed e, nextEntry := None\<rparr>"
      by (auto split: option.splits)
    have sets: "incoming p' = incoming p" "nextEntry p' = None"
       "displaced p' = displaced p"
       "claimed p' = claimed p \<union> {e}" "allocated p' = allocated p"
      using W_wait by (auto simp: p' incoming_def displaced_def claimed_def)
    show ?thesis
    proof (rule sched_invI [of p' "incoming p" "{}" "displaced p" "claimed p \<union> {e}"])
      fix x assume "x \<in> incoming p \<union> {} \<union> displaced p \<union> (claimed p \<union> {e})"
      then show "ident x < allocated p'"
        using sched_invD(1) [OF inv, of x] sets(5) e by auto
    next
      show "incoming p \<inter> ({} \<union> displaced p \<union> (claimed p \<union> {e})) = {}"
        using sched_invD(2) [OF inv] e by auto
      show "displaced p \<inter> (claimed p \<union> {e}) = {}"
        using sched_invD(3,4) [OF inv] e by auto
    qed (simp_all add: sets)
  qed
next
  case (W_claimed e)
  with st obtain out w' fsm' where pe: "ProcessEvent 2 (FSM p) (ev e) (world p) = Some (out, w', fsm')"
    by (auto split: option.splits)
  with st W_claimed obtain wk where
    p': "p' = p\<lparr> FSM := fsm', world := w', worker := wk, effects := effects p @ [Process e] \<rparr>"
    and wk: "\<And>x. wk \<noteq> W_claimed x"
    by (cases out) auto
  show ?thesis
    using inv
    by (rule sched_inv_same_places) (auto simp: p' W_claimed wk incoming_def displaced_def claimed_def)
next
  case (W_processed e r)
  with st have p': "p' = p\<lparr> effects := effects p @ [Complete e r], worker := W_wait \<rparr>"
    by simp
  show ?thesis
    using inv
    by (rule sched_inv_same_places) (auto simp: p' W_processed incoming_def displaced_def claimed_def)
next
  case W_exited
  with st show ?thesis by simp
next
  case (W_panicked v)
  with st show ?thesis by simp
qed

lemma sched_inv_step:
  assumes "sched_inv p" "step a p = Some p'"
  shows "sched_inv p'"
proof (cases a)
  case (Submit event)
  with assms show ?thesis using sched_inv_submit by blast
next
  case Close
  with assms show ?thesis using sched_inv_close by blast
next
  case Dispatcher
  with assms have "dispatcher_step p = Some p'" by (simp split: if_splits)
  with assms(1) show ?thesis by (rule sched_inv_dispatcher)
next
  case Worker
  with assms have "worker_step p = Some p'" by (simp split: if_splits)
  with assms(1) show ?thesis by (rule sched_inv_worker)
qed

lemma sched_inv_run:
  "sched_inv p \<Longrightarrow> run p acts = Some p' \<Longrightarrow> sched_inv p'"
proof (induction acts arbitrary: p)
  case Nil
  then show ?case by simp
next
  case (Cons a acts)
  from Cons.prems(2) obtain q where q: "step a p = Some q" "run q acts = Some p'"
    by (auto split: option.splits)
  from Cons.prems(1) q(1) have "sched_inv q" by (rule sched_inv_step)
  then show ?case using q(2) by (rule Cons.IH)
qed

lemma sched_inv_NewPreemptiveFSM: "sched_inv ((NewPreemptiveFSM s0 pl w0)\<lparr>FSM := fsm\<rparr>)"
  by (simp add: sched_inv_def NewPreemptiveFSM_def incoming_def displaced_def claimed_def)

lemma preempts_append: "preempts (cs @ ds) = preempts cs @ preempts ds"
  by (induction cs rule: preempts.induct) simp_all

lemma engine_calls_append: "engine_calls (cs @ ds) = engine_calls cs @ engine_calls ds"
  by (induction cs rule: engine_calls.induct) simp_all

lemma results_append: "results (cs @ ds) = results cs @ results ds"
  by (induction cs rule: results.induct) simp_all

lemma preempts_map_Preempt: "preempts (map Preempt es) = es"
  by (induction es) simp_all

subsection \<open>While the worker is busy\<close>

lemma worker_step_cases:
  assumes "worker_step p = Some q" "0 < steps_to_claim (worker p)"
  obtains
    (call) e r w' fsm' where "worker p = W_claimed e"
      "ProcessEvent 2 (FSM p) (ev e) (world p) = Some (Returned r, w', fsm')"
      "q = p\<lparr> FSM := fsm', world := w', worker := W_processed e r,
               effects := effects p @ [Process e] \<rparr>"
  | (panic) e v w' fsm' where "worker p = W_claimed e"
      "ProcessEvent 2 (FSM p) (ev e) (world p) = Some (Panicked v, w', fsm')"
      "q = p\<lparr> FSM := fsm', world := w', worker := W_panicked v,
               effects := effects p @ [Process e] \<rparr>"
  | (complete) e r where "worker p = W_processed e r"
      "q = p\<lparr> effects := effects p @ [Complete e r], worker := W_wait \<rparr>"
proof (cases "worker p")
  case (W_claimed e)
  with assms(1) obtain out w' fsm' where
    pe: "ProcessEvent 2 (FSM p) (ev e) (world p) = Some (out, w', fsm')"
    by (auto split: option.splits)
  show ?thesis
  proof (cases out)
    case (Returned r)
    with assms(1) W_claimed pe show ?thesis by (intro call [of e r w' fsm']) simp_all
  next
    case (Panicked v)
    with assms(1) W_claimed pe show ?thesis by (intro panic [of e v w' fsm']) simp_all
  qed
next
  case (W_processed e r)
  with assms(1) show ?thesis by (intro complete [of e r]) simp_all
qed (use assms in simp_all)

lemma slot_step:
  assumes st: "step a p = Some q" and a: "a \<noteq> Close" and d: "dispatcher p \<noteq> D_swap None"
      and b: "a = Worker \<longrightarrow> 0 < steps_to_claim (worker p)"
  shows "exitFlag q = exitFlag p \<and> dispatcher q \<noteq> D_swap None \<and>
         preempts (effects q) @ pending q @ option_list (nextEntry q) =
           preempts (effects p) @ pending p @ option_list (nextEntry p) @ stored a p \<and>
         (nextEntry p \<noteq> None \<or> stored a p \<noteq> [] \<longrightarrow> nextEntry q \<noteq> None)"
proof (cases a)
  case (Submit event)
  with st have q: "q = p\<lparr> dispatcher := D_swap (Some \<lparr> ev = event, ident = allocated p \<rparr>),
             allocated := Suc (allocated p) \<rparr>" and dp: "dispatcher p = D_receive"
    using step_Submit [of event p q] by blast+
  show ?thesis
    using Submit by (simp add: q dp pending_def stored_def)
next
  case Close
  with a show ?thesis by simp
next
  case Worker
  with st have ws: "worker_step p = Some q"
    by (simp split: if_splits)
  from Worker b have pos: "0 < steps_to_claim (worker p)" by simp
  from ws pos have "dispatcher q = dispatcher p \<and> nextEntry q = nextEntry p \<and>
      exitFlag q = exitFlag p \<and> preempts (effects q) = preempts (effects p)"
    by (cases rule: worker_step_cases) (simp_all add: preempts_append)
  then show ?thesis
    using Worker d by (simp add: pending_def stored_def)
next
  case Dispatcher
  with st have ds: "dispatcher_step p = Some q"
    by (simp_all split: if_splits)
  show ?thesis
  proof (cases "dispatcher p")
    case D_receive
    with ds show ?thesis by simp
  next
    case (D_swap x)
    with d obtain e where x: "x = Some e" by (cases x) auto
    from ds D_swap x have q: "q = p\<lparr> nextEntry := Some e, dispatcher := D_complete (nextEntry p) (Some e) \<rparr>"
      by simp
    show ?thesis
      using Dispatcher by (simp add: q D_swap x pending_def stored_def option_list_def)
  next
    case (D_complete prev x)
    with ds have q: "q = p\<lparr> effects := effects p @ map Preempt (option_list prev),
                  dispatcher := (if x = None then D_wait else D_receive) \<rparr>"
      by (cases prev; cases x) (auto simp: option_list_def)
    show ?thesis
      using Dispatcher
      by (simp add: q D_complete pending_def stored_def preempts_append preempts_map_Preempt)
  next
    case D_wait
    with ds have q: "q = p\<lparr>dispatcher := D_done\<rparr>"
      by (simp split: if_splits)
    show ?thesis
      using Dispatcher by (simp add: q D_wait pending_def stored_def)
  next
    case D_done
    with ds show ?thesis by simp
  qed
qed

lemma steps_to_claim_step:
  assumes "step a p = Some q"
  shows "a \<noteq> Worker \<Longrightarrow> worker q = worker p"
    and "a = Worker \<Longrightarrow> 0 < steps_to_claim (worker p) \<Longrightarrow>
           steps_to_claim (worker p) \<le> Suc (steps_to_claim (worker q))"
proof -
  show "worker q = worker p" if "a \<noteq> Worker"
  proof (cases a)
    case (Submit event)
    with assms show ?thesis by (auto split: if_splits)
  next
    case Close
    with assms show ?thesis by (auto split: if_splits)
  next
    case Dispatcher
    with assms show ?thesis
      by (cases "dispatcher p") (auto split: if_splits)
  next
    case Worker
    with that show ?thesis by simp
  qed
  show "steps_to_claim (worker p) \<le> Suc (steps_to_claim (worker q))"
    if "a = Worker" "0 < steps_to_claim (worker p)"
  proof -
    from assms that(1) have "worker_step p = Some q" by (simp split: if_splits)
    from this that(2) show ?thesis
      by (cases rule: worker_step_cases) simp_all
  qed
qed

lemma slot_run:
  assumes "run p acts = Some p'" "Close \<notin> set acts" "dispatcher p \<noteq> D_swap None"
      and "count_list acts Worker \<le> steps_to_claim (worker p)"
  shows "exitFlag p' = exitFlag p \<and>
         preempts (effects p') @ pending p' @ option_list (nextEntry p') =
           preempts (effects p) @ pending p @ option_list (nextEntry p) @ arrivals p acts \<and>
         (nextEntry p \<noteq> None \<or> arrivals p acts \<noteq> [] \<longrightarrow> nextEntry p' \<noteq> None)"
  using assms
proof (induction acts arbitrary: p)
  case Nil
  then show ?case by simp
next
  case (Cons a acts)
  from Cons.prems(1) obtain q where q: "step a p = Some q" "run q acts = Some p'"
    by (auto split: option.splits)
  from Cons.prems(2) have a: "a \<noteq> Close" and rest: "Close \<notin> set acts"
    by auto
  from Cons.prems(4) have b: "a = Worker \<longrightarrow> 0 < steps_to_claim (worker p)"
    by auto
  have budget: "count_list acts Worker \<le> steps_to_claim (worker q)"
  proof (cases "a = Worker")
    case True
    with b steps_to_claim_step(2) [OF q(1)] Cons.prems(4) show ?thesis by simp
  next
    case False
    with steps_to_claim_step(1) [OF q(1)] Cons.prems(4) show ?thesis by simp
  qed
  from slot_step [OF q(1) a Cons.prems(3) b]
  have f1: "exitFlag q = exitFlag p" and dq: "dispatcher q \<noteq> D_swap None"
    and e1: "preempts (effects q) @ pending q @ option_list (nextEntry q) =
           preempts (effects p) @ pending p @ option_list (nextEntry p) @ stored a p"
    and n1: "nextEntry p \<noteq> None \<or> stored a p \<noteq> [] \<longrightarrow> nextEntry q \<noteq> None"
    by blast+
  from Cons.IH [OF q(2) rest dq budget]
  have f2: "exitFlag p' = exitFlag q"
    and e2: "preempts (effects p') @ pending p' @ option_list (nextEntry p') =
           preempts (effects q) @ pending q @ option_list (nextEntry q) @ arrivals q acts"
    and n2: "nextEntry q \<noteq> None \<or> arrivals q acts \<noteq> [] \<longrightarrow> nextEntry p' \<noteq> None"
    by blast+
  have arr: "arrivals p (a # acts) = stored a p @ arrivals q acts"
    using q(1) by simp
  have "preempts (effects p') @ pending p' @ option_list (nextEntry p') =
        (preempts (effects q) @ pending q @ option_list (nextEntry q)) @ arrivals q acts"
    using e2 by simp
  also have "\<dots> = preempts (effects p) @ pending p @ option_list (nextEntry p) @ arrivals p (a # acts)"
    by (simp only: e1 arr append_assoc)
  finally have e: "preempts (effects p') @ pending p' @ option_list (nextEntry p') =
        preempts (effects p) @ pending p @ option_list (nextEntry p) @ arrivals p (a # acts)" .
  have n: "nextEntry p \<noteq> None \<or> arrivals p (a # acts) \<noteq> [] \<longrightarrow> nextEntry p' \<noteq> None"
    using n1 n2 by (auto simp only: arr append_is_Nil_conv)
  from f1 f2 e n show ?case by simp
qed

lemma set_preempts: "x \<in> set (preempts cs) \<longleftrightarrow> Preempt x \<in> set cs"
  by (induction cs rule: preempts.induct) auto

lemma run_crashed: "crashed p \<Longrightarrow> run p acts = Some p' \<Longrightarrow> acts = []"
  by (cases acts) simp_all

lemma other_step:
  assumes "step a p = Some q" "a \<noteq> Worker"
  shows "worker q = worker p \<and> FSM q = FSM p \<and> world q = world p \<and>
         engine_calls (effects q) = engine_calls (effects p) \<and>
         results (effects q) = results (effects p)"
proof (cases a)
  case (Submit event)
  with assms show ?thesis by (auto split: if_splits)
next
  case Close
  with assms show ?thesis by (auto split: if_splits)
next
  case Dispatcher
  with assms show ?thesis
    by (cases "dispatcher p")
       (auto simp: engine_calls_append results_append split: if_splits option.splits)
next
  case Worker
  with assms show ?thesis by simp
qed

lemma worker_idle_run:
  "run p acts = Some p' \<Longrightarrow> count_list acts Worker = 0 \<Longrightarrow>
   worker p' = worker p \<and> FSM p' = FSM p \<and> world p' = world p \<and>
   engine_calls (effects p') = engine_calls (effects p) \<and>
   results (effects p') = results (effects p)"
proof (induction acts arbitrary: p)
  case Nil
  then show ?case by simp
next
  case (Cons a acts)
  from Cons.prems(1) obtain q where q: "step a p = Some q" "run q acts = Some p'"
    by (auto split: option.splits)
  from Cons.prems(2) have a: "a \<noteq> Worker" and rest: "count_list acts Worker = 0"
    by (auto split: if_splits)
  from other_step [OF q(1) a] Cons.IH [OF q(2) rest] show ?case by simp
qed

lemma worker_completes_run:
  "run p acts = Some p' \<Longrightarrow> count_list acts Worker = 1 \<Longrightarrow> worker p = W_processed e0 r \<Longrightarrow>
   worker p' = W_wait \<and> FSM p' = FSM p \<and> world p' = world p \<and>
   engine_calls (effects p') = engine_calls (effects p) \<and>
   results (effects p') = results (effects p) @ [(e0, r)]"
proof (induction acts arbitrary: p)
  case Nil
  then show ?case by simp
next
  case (Cons a acts)
  from Cons.prems(1) obtain q where q: "step a p = Some q" "run q acts = Some p'"
    by (auto split: option.splits)
  show ?case
  proof (cases "a = Worker")
    case False
    with Cons.prems(2) have rest: "count_list acts Worker = 1" by simp
    from other_step [OF q(1) False] Cons.prems(3) have "worker q = W_processed e0 r" by simp
    from Cons.IH [OF q(2) rest this] other_step [OF q(1) False] show ?thesis by simp
  next
    case True
    with Cons.prems(2) have rest: "count_list acts Worker = 0" by simp
    from True q(1) Cons.prems(3) have q': "q = p\<lparr> effects := effects p @ [Complete e0 r], worker := W_wait \<rparr>"
      by (simp split: if_splits)
    from worker_idle_run [OF q(2) rest] show ?thesis
      by (simp add: q' engine_calls_append results_append)
  qed
qed

lemma worker_processes_run:
  "run p acts = Some p' \<Longrightarrow> count_list acts Worker = 2 \<Longrightarrow> worker p = W_claimed e0 \<Longrightarrow>
   \<exists>r w1 f1. ProcessEvent 2 (FSM p) (ev e0) (world p) = Some (Returned r, w1, f1) \<and>
     worker p' = W_wait \<and> FSM p' = f1 \<and> world p' = w1 \<and>
     engine_calls (effects p') = engine_calls (effects p) @ [e0] \<and>
     results (effects p') = results (effects p) @ [(e0, r)]"
proof (induction acts arbitrary: p)
  case Nil
  then show ?case by simp
next
  case (Cons a acts)
  from Cons.prems(1) obtain q where q: "step a p = Some q" "run q acts = Some p'"
    by (auto split: option.splits)
  show ?case
  proof (cases "a = Worker")
    case False
    with Cons.prems(2) have rest: "count_list acts Worker = 2" by simp
    from other_step [OF q(1) False] Cons.prems(3) have "worker q = W_claimed e0" by simp
    from Cons.IH [OF q(2) rest this] other_step [OF q(1) False] show ?thesis by simp
  next
    case True
    with Cons.prems(2) have rest: "count_list acts Worker = 1" by simp
    from True q(1) have ws: "worker_step p = Some q" by (simp split: if_splits)
    from Cons.prems(3) have "0 < steps_to_claim (worker p)" by simp
    with ws show ?thesis
    proof (cases rule: worker_step_cases)
      case (call e r w' fsm')
      with Cons.prems(3) have e: "e = e0" by simp
      from call have "worker q = W_processed e r" by simp
      from worker_completes_run [OF q(2) rest this] call e show ?thesis
        by (simp add: engine_calls_append results_append)
    next
      case (panic e v w' fsm')
      then have "crashed q" by (simp add: crashed_def)
      from run_crashed [OF this q(2)] rest show ?thesis by simp
    next
      case (complete e r)
      with Cons.prems(3) show ?thesis by simp
    qed
  qed
qed

subsection \<open>The preemption invariant\<close>

text \<open>
  Claim C2, as amended. First, in every state that the scheduler reaches from its
  creation, under every schedule of the callers, the dispatcher and the worker: an
  entry that the worker has taken is not in the slot, not on its way into the slot and
  not among the entries the dispatcher displaces, so that only an entry still in the
  slot is ever displaced. Second, a submission arrives when the dispatcher puts it into
  the slot (its locked region), not when it is handed to the dispatcher. Take the
  window between the moment the worker has taken an entry \<open>e0\<close> and the moment it
  takes its next one: callers, dispatcher and worker move in any order, the worker
  through the call of the engine and the completion of \<open>e0\<close>. If the arrivals of the
  window are \<open>es\<close> followed by \<open>e\<close>, then at its end \<open>e\<close> is in the slot and the next
  step of the worker takes it and empties the slot; what was in the slot before and
  every entry of \<open>es\<close> has been taken out of the slot by the dispatcher, in this order,
  and has been completed with \<^verbatim>\<open>errors.New\<close> of the message
  \<^verbatim>\<open>the current event has been preempted\<close>,
  except that the last of them may still be in the hands of the dispatcher, whose next
  step then completes it so; and the engine was called on \<open>e0\<close> and on nothing else.
\<close>

theorem preemption_invariant:
  "(run ((NewPreemptiveFSM s0 pl w0)\<lparr>FSM := fsm\<rparr>) sched = Some q \<longrightarrow>
      (\<forall>x \<in> claimed q. nextEntry q \<noteq> Some x \<and> x \<notin> incoming q \<and> x \<notin> displaced q)) \<and>
   (worker p = W_claimed e0 \<and> \<not> exitFlag p \<and> dispatcher p \<noteq> D_swap None \<and>
    Close \<notin> set acts \<and> count_list acts Worker = 2 \<and> run p acts = Some p' \<and>
    arrivals p acts = es @ [e] \<longrightarrow>
      nextEntry p' = Some e \<and>
      preempts (effects p') @ pending p' =
        preempts (effects p) @ pending p @ option_list (nextEntry p) @ es \<and>
      (\<forall>x \<in> set es. x \<in> set (pending p') \<or>
         (\<exists>c \<in> set (effects p').
            delivered c = Some (x, Some (errors_New ''the current event has been preempted'')))) \<and>
      (\<forall>x \<in> set (pending p'). \<exists>q'.
         step Dispatcher p' = Some q' \<and> effects q' = effects p' @ [Preempt x] \<and>
         delivered (Preempt x) =
           Some (x, Some (errors_New ''the current event has been preempted''))) \<and>
      engine_calls (effects p') = engine_calls (effects p) @ [e0] \<and>
      (\<exists>r w1 f1. ProcessEvent 2 (FSM p) (ev e0) (world p) = Some (Returned r, w1, f1) \<and>
         results (effects p') = results (effects p) @ [(e0, r)] \<and>
         FSM p' = f1 \<and> world p' = w1) \<and>
      worker p' = W_wait \<and>
      step Worker p' = Some (p'\<lparr>worker := W_claimed e, nextEntry := None\<rparr>))"
proof (intro conjI impI)
  assume "run ((NewPreemptiveFSM s0 pl w0)\<lparr>FSM := fsm\<rparr>) sched = Some q"
  with sched_inv_NewPreemptiveFSM have inv: "sched_inv q"
    by (rule sched_inv_run)
  show "\<forall>x \<in> claimed q. nextEntry q \<noteq> Some x \<and> x \<notin> incoming q \<and> x \<notin> displaced q"
  proof
    fix x assume "x \<in> claimed q"
    then show "nextEntry q \<noteq> Some x \<and> x \<notin> incoming q \<and> x \<notin> displaced q"
      using sched_invD(2,3,4) [OF inv] by (cases "nextEntry q") auto
  qed
next
  assume h: "worker p = W_claimed e0 \<and> \<not> exitFlag p \<and> dispatcher p \<noteq> D_swap None \<and>
    Close \<notin> set acts \<and> count_list acts Worker = 2 \<and> run p acts = Some p' \<and>
    arrivals p acts = es @ [e]"
  then have budget: "count_list acts Worker \<le> steps_to_claim (worker p)"
    and run: "run p acts = Some p'" and nc: "Close \<notin> set acts"
    and dp: "dispatcher p \<noteq> D_swap None" and arr: "arrivals p acts = es @ [e]"
    by simp_all
  from slot_run [OF run nc dp budget]
  have flag: "exitFlag p' = exitFlag p"
    and eq: "preempts (effects p') @ pending p' @ option_list (nextEntry p') =
           preempts (effects p) @ pending p @ option_list (nextEntry p) @ arrivals p acts"
    and ne: "nextEntry p \<noteq> None \<or> arrivals p acts \<noteq> [] \<longrightarrow> nextEntry p' \<noteq> None"
    by blast+
  from ne arr obtain s where s: "nextEntry p' = Some s" by auto
  from eq have "(preempts (effects p') @ pending p') @ [s] =
      (preempts (effects p) @ pending p @ option_list (nextEntry p) @ es) @ [e]"
    by (simp add: s arr option_list_def)
  then have se: "s = e"
    and pre: "preempts (effects p') @ pending p' =
        preempts (effects p) @ pending p @ option_list (nextEntry p) @ es"
    by (simp_all only: append1_eq_conv)
  have slot: "nextEntry p' = Some e"
    using s se by simp
  from h worker_processes_run [OF run, of e0]
  obtain r w1 f1 where pe: "ProcessEvent 2 (FSM p) (ev e0) (world p) = Some (Returned r, w1, f1)"
    and wk: "worker p' = W_wait" and st: "FSM p' = f1" "world p' = w1"
    and calls: "engine_calls (effects p') = engine_calls (effects p) @ [e0]"
    and res: "results (effects p') = results (effects p) @ [(e0, r)]"
    by blast
  show "nextEntry p' = Some e" by (rule slot)
  show "preempts (effects p') @ pending p' =
        preempts (effects p) @ pending p @ option_list (nextEntry p) @ es"
    by (rule pre)
  show "\<forall>x \<in> set es. x \<in> set (pending p') \<or>
         (\<exists>c \<in> set (effects p').
            delivered c = Some (x, Some (errors_New ''the current event has been preempted'')))"
  proof
    fix x assume "x \<in> set es"
    then have "x \<in> set (preempts (effects p') @ pending p')" by (simp add: pre)
    then have "x \<in> set (pending p') \<or> Preempt x \<in> set (effects p')"
      by (auto simp: set_preempts)
    then show "x \<in> set (pending p') \<or>
         (\<exists>c \<in> set (effects p').
            delivered c = Some (x, Some (errors_New ''the current event has been preempted'')))"
    proof
      assume "Preempt x \<in> set (effects p')"
      then have "\<exists>c \<in> set (effects p').
            delivered c = Some (x, Some (errors_New ''the current event has been preempted''))"
        by (rule bexI [rotated]) (simp add: preempted_def)
      then show ?thesis ..
    qed simp
  qed
  show "\<forall>x \<in> set (pending p'). \<exists>q'.
         step Dispatcher p' = Some q' \<and> effects q' = effects p' @ [Preempt x] \<and>
         delivered (Preempt x) =
           Some (x, Some (errors_New ''the current event has been preempted''))"
  proof
    fix x assume "x \<in> set (pending p')"
    then obtain y where "dispatcher p' = D_complete (Some x) y"
      by (cases "dispatcher p'") (auto simp: pending_def option_list_def split: option.splits)
    then show "\<exists>q'.
         step Dispatcher p' = Some q' \<and> effects q' = effects p' @ [Preempt x] \<and>
         delivered (Preempt x) =
           Some (x, Some (errors_New ''the current event has been preempted''))"
      using wk by (simp add: crashed_def preempted_def)
  qed
  show "engine_calls (effects p') = engine_calls (effects p) @ [e0]" by (rule calls)
  show "\<exists>r w1 f1. ProcessEvent 2 (FSM p) (ev e0) (world p) = Some (Returned r, w1, f1) \<and>
         results (effects p') = results (effects p) @ [(e0, r)] \<and> FSM p' = f1 \<and> world p' = w1"
    using pe res st by blast
  show "worker p' = W_wait" by (rule wk)
  show "step Worker p' = Some (p'\<lparr>worker := W_claimed e, nextEntry := None\<rparr>)"
    using wk slot flag h by (simp add: crashed_def)
qed

theorem preemption_invariant_witness:
  "run test_scheduler
     [Submit Switch, Dispatcher, Dispatcher, Worker,
      Submit Switch, Dispatcher, Dispatcher, Submit Switch, Dispatcher, Dispatcher,
      Worker, Worker, Worker] =
     Some (test_scheduler
            \<lparr> FSM := toggle_switch\<lparr>curState := ''on''\<rparr>, world := 1,
              worker := W_claimed \<lparr> ev = Switch, ident = 2 \<rparr>, allocated := 3,
              effects := [Preempt \<lparr> ev = Switch, ident = 1 \<rparr>,
                          Process \<lparr> ev = Switch, ident = 0 \<rparr>,
                          Complete \<lparr> ev = Switch, ident = 0 \<rparr> None] \<rparr>) \<and>
   \<lparr> ev = Switch, ident = 2 \<rparr> \<notin> displaced (test_scheduler
            \<lparr> FSM := toggle_switch\<lparr>curState := ''on''\<rparr>, world := 1,
              worker := W_claimed \<lparr> ev = Switch, ident = 2 \<rparr>, allocated := 3,
              effects := [Preempt \<lparr> ev = Switch, ident = 1 \<rparr>,
                          Process \<lparr> ev = Switch, ident = 0 \<rparr>,
                          Complete \<lparr> ev = Switch, ident = 0 \<rparr> None] \<rparr>) \<and>
   run busy_scheduler
     [Submit Switch, Dispatcher, Worker, Dispatcher, Submit Switch, Dispatcher, Dispatcher,
      Worker] =
     Some (busy_scheduler
            \<lparr> FSM := toggle_switch\<lparr>curState := ''on''\<rparr>, world := 1,
              nextEntry := Some \<lparr> ev = Switch, ident = 2 \<rparr>, worker := W_wait, allocated := 3,
              effects := [Process \<lparr> ev = Switch, ident = 0 \<rparr>,
                          Preempt \<lparr> ev = Switch, ident = 1 \<rparr>,
                          Complete \<lparr> ev = Switch, ident = 0 \<rparr> None] \<rparr>) \<and>
   step Worker (busy_scheduler
            \<lparr> FSM := toggle_switch\<lparr>curState := ''on''\<rparr>, world := 1,
              nextEntry := Some \<lparr> ev = Switch, ident = 2 \<rparr>, worker := W_wait, allocated := 3,
              effects := [Process \<lparr> ev = Switch, ident = 0 \<rparr>,
                          Preempt \<lparr> ev = Switch, ident = 1 \<rparr>,
                          Complete \<lparr> ev = Switch, ident = 0 \<rparr> None] \<rparr>) =
     Some (busy_scheduler
            \<lparr> FSM := toggle_switch\<lparr>curState := ''on''\<rparr>, world := 1,
              nextEntry := None, worker := W_claimed \<lparr> ev = Switch, ident = 2 \<rparr>, allocated := 3,
              effects := [Process \<lparr> ev = Switch, ident = 0 \<rparr>,
                          Preempt \<lparr> ev = Switch, ident = 1 \<rparr>,
                          Complete \<lparr> ev = Switch, ident = 0 \<rparr> None] \<rparr>)"
proof -
  let ?A = "\<lparr> ev = Switch, ident = 0 \<rparr>" and ?B = "\<lparr> ev = Switch, ident = 1 \<rparr>"
  and ?C = "\<lparr> ev = Switch, ident = 2 \<rparr>"
  let ?all = "[Submit Switch, Dispatcher, Dispatcher, Worker,
      Submit Switch, Dispatcher, Dispatcher, Submit Switch, Dispatcher, Dispatcher,
      Worker, Worker, Worker]"
  let ?window = "[Submit Switch, Dispatcher, Worker, Dispatcher, Submit Switch, Dispatcher,
      Dispatcher, Worker]"
  let ?Q = "test_scheduler
            \<lparr> FSM := toggle_switch\<lparr>curState := ''on''\<rparr>, world := 1,
              worker := W_claimed ?C, allocated := 3,
              effects := [Preempt ?B, Process ?A, Complete ?A None] \<rparr>"
  let ?P' = "busy_scheduler
            \<lparr> FSM := toggle_switch\<lparr>curState := ''on''\<rparr>, world := 1,
              nextEntry := Some ?C, worker := W_wait, allocated := 3,
              effects := [Process ?A, Preempt ?B, Complete ?A None] \<rparr>"
  have all: "run test_scheduler ?all = Some ?Q"
    by (simp add: test_scheduler_def NewPreemptiveFSM_def crashed_def toggle_off
          del: ProcessEvent.simps)
  have window: "run busy_scheduler ?window = Some ?P'"
    by (simp add: busy_scheduler_def test_scheduler_def NewPreemptiveFSM_def crashed_def toggle_off
          del: ProcessEvent.simps)
  note inst = preemption_invariant
      [where ?s0.0 = off and pl = "()" and ?w0.0 = "0 :: nat" and fsm = toggle_switch
         and sched = ?all and q = ?Q
         and p = busy_scheduler and ?e0.0 = ?A and acts = ?window and p' = ?P'
         and es = "[?B]" and e = ?C]
  have "?C \<in> claimed ?Q"
    by (simp add: claimed_def test_scheduler_def NewPreemptiveFSM_def)
  with inst all have 1: "?C \<notin> displaced ?Q"
    by (simp add: test_scheduler_def del: run.simps ProcessEvent.simps)
  have arr: "arrivals busy_scheduler ?window = [?B] @ [?C]"
    by (simp add: busy_scheduler_def test_scheduler_def NewPreemptiveFSM_def crashed_def toggle_off
          stored_def option_list_def del: ProcessEvent.simps)
  have hyp: "worker busy_scheduler = W_claimed ?A \<and> \<not> exitFlag busy_scheduler \<and>
      dispatcher busy_scheduler \<noteq> D_swap None \<and> Close \<notin> set ?window \<and>
      count_list ?window Worker = 2 \<and>
      run busy_scheduler ?window = Some ?P' \<and>
      arrivals busy_scheduler ?window = [?B] @ [?C]"
    using window arr
    by (simp add: busy_scheduler_def test_scheduler_def NewPreemptiveFSM_def
          del: run.simps arrivals.simps ProcessEvent.simps)
  from inst hyp have 2: "step Worker ?P' = Some (?P'\<lparr>worker := W_claimed ?C, nextEntry := None\<rparr>)"
    by blast
  from all 1 window 2 show ?thesis
    by (simp del: run.simps step.simps ProcessEvent.simps)
qed

text \<open>
  With arrival read as the handing over to the dispatcher, the statement fails. The
  worker is inside the engine for the first entry while the second is put into the slot
  and the third is received; the worker comes back and takes the second before the
  dispatcher reaches its locked region with the third. All three entries are processed,
  in the order of their submission, and none is completed with the preemption error.
\<close>

theorem preemption_window_counterexample:
  "run test_scheduler
     [Submit Switch, Dispatcher, Dispatcher, Worker,
      Submit Switch, Dispatcher, Dispatcher, Submit Switch] =
     Some (test_scheduler
            \<lparr> nextEntry := Some \<lparr> ev = Switch, ident = 1 \<rparr>,
              dispatcher := D_swap (Some \<lparr> ev = Switch, ident = 2 \<rparr>),
              worker := W_claimed \<lparr> ev = Switch, ident = 0 \<rparr>, allocated := 3 \<rparr>) \<and>
   run (test_scheduler
            \<lparr> nextEntry := Some \<lparr> ev = Switch, ident = 1 \<rparr>,
              dispatcher := D_swap (Some \<lparr> ev = Switch, ident = 2 \<rparr>),
              worker := W_claimed \<lparr> ev = Switch, ident = 0 \<rparr>, allocated := 3 \<rparr>)
     [Worker, Worker, Worker, Dispatcher, Dispatcher,
      Worker, Worker, Worker, Worker, Worker] =
     Some (test_scheduler
            \<lparr> FSM := toggle_switch\<lparr>curState := ''on''\<rparr>, world := 3,
              worker := W_wait, allocated := 3,
              effects := [Process \<lparr> ev = Switch, ident = 0 \<rparr>,
                          Complete \<lparr> ev = Switch, ident = 0 \<rparr> None,
                          Process \<lparr> ev = Switch, ident = 1 \<rparr>,
                          Complete \<lparr> ev = Switch, ident = 1 \<rparr> None,
                          Process \<lparr> ev = Switch, ident = 2 \<rparr>,
                          Complete \<lparr> ev = Switch, ident = 2 \<rparr> None] \<rparr>)"
  by (simp add: test_scheduler_def NewPreemptiveFSM_def crashed_def toggle_off toggle_on
        del: ProcessEvent.simps)

section \<open>Properties of the queued scheduler\<close>

subsection \<open>Wait groups and notifications step alike\<close>

lemma conv_simps [simp]:
  "call_ev (conv f) = call_ev f" "errResult (conv f) = errResult f" "call_pc (conv f) = call_pc f"
  "signal (conv f) = as_notification (signal f)"
  "conv (f\<lparr>call_pc := c\<rparr>) = (conv f)\<lparr>call_pc := c\<rparr>"
  "conv (f\<lparr>errResult := r\<rparr>) = (conv f)\<lparr>errResult := r\<rparr>"
  "conv (f\<lparr>errResult := r, signal := s\<rparr>) = (conv f)\<lparr>errResult := r, signal := as_notification s\<rparr>"
  by (simp_all add: conv_def)

lemma with_notifications_simps [simp]:
  "qFSM (with_notifications q) = qFSM q" "qworld (with_notifications q) = qworld q"
  "mainLoop_pc (with_notifications q) = mainLoop_pc q" "qeffects (with_notifications q) = qeffects q"
  "frames (with_notifications q) = map conv (frames q)"
  "queued_crashed (with_notifications q) = queued_crashed q"
  by (simp_all add: with_notifications_def queued_crashed_def conv_def)

lemma with_notifications_update:
  "with_notifications (q\<lparr>frames := fs\<rparr>) = (with_notifications q)\<lparr>frames := map conv fs\<rparr>"
  "with_notifications (q\<lparr>mainLoop_pc := l\<rparr>) = (with_notifications q)\<lparr>mainLoop_pc := l\<rparr>"
  "with_notifications (q\<lparr>qFSM := m\<rparr>) = (with_notifications q)\<lparr>qFSM := m\<rparr>"
  "with_notifications (q\<lparr>qworld := w\<rparr>) = (with_notifications q)\<lparr>qworld := w\<rparr>"
  "with_notifications (q\<lparr>qeffects := es\<rparr>) = (with_notifications q)\<lparr>qeffects := es\<rparr>"
  by (simp_all add: with_notifications_def conv_def)

lemmas signal_defs =
  WaitGroup_Add_def WaitGroup_Done_def WaitGroup_Wait_returns_def NewNotification_def

lemma Wait_returns_as_notification [simp]: "Wait_returns (as_notification s) = Wait_returns s"
  by (cases s) (simp_all add: signal_defs)

lemma Done_as_notification:
  "s = WaitGroup 0 \<or> s = WaitGroup 1 \<Longrightarrow> Done (as_notification s) = map_option as_notification (Done s)"
  by (auto simp: signal_defs)

lemma conv_enter: "conv (ProcessEvent_WaitGroup event) = ProcessEvent_Notification event"
  by (simp add: conv_def ProcessEvent_WaitGroup_def ProcessEvent_Notification_def signal_defs)

lemma mainLoop_step_sim:
  assumes ok: "wait_groups_ok q"
  shows "map_option with_notifications (mainLoop_step q) = mainLoop_step (with_notifications q)"
proof (cases "mainLoop_pc q")
  case (L_process i)
  then show ?thesis
    by (auto simp: mainLoop_step_def with_notifications_update split: option.splits outcome.splits)
next
  case (L_complete i r)
  show ?thesis
  proof (cases "i < length (frames q)")
    case False
    with L_complete show ?thesis by (simp add: mainLoop_step_def)
  next
    case True
    then have "signal (frames q ! i) = WaitGroup 0 \<or> signal (frames q ! i) = WaitGroup 1"
      using ok by (simp add: wait_groups_ok_def)
    then have d: "Done (as_notification (signal (frames q ! i))) =
                  map_option as_notification (Done (signal (frames q ! i)))"
      by (rule Done_as_notification)
    show ?thesis
      using L_complete True d
      by (cases "Done (signal (frames q ! i))")
         (simp_all add: mainLoop_step_def with_notifications_update map_update)
  qed
qed (simp_all add: mainLoop_step_def)

lemma queued_step_sim:
  assumes ok: "wait_groups_ok q"
  shows "map_option with_notifications (queued_step ProcessEvent_WaitGroup a q) =
         queued_step ProcessEvent_Notification a (with_notifications q)"
proof (cases a)
  case (Call event)
  then show ?thesis
    by (simp add: queued_step_def with_notifications_update conv_enter)
next
  case (Handoff i)
  then show ?thesis
    by (cases "i < length (frames q)")
       (simp_all add: queued_step_def with_notifications_update map_update)
next
  case CloseQ
  then show ?thesis
    by (simp add: queued_step_def with_notifications_update)
next
  case Loop
  then show ?thesis
    using mainLoop_step_sim [OF ok] by (simp add: queued_step_def)
next
  case (WaitReturn i)
  then show ?thesis
    by (cases "i < length (frames q)")
       (simp_all add: queued_step_def with_notifications_update map_update)
qed

lemma wait_groups_ok_step:
  assumes ok: "wait_groups_ok q" and st: "queued_step ProcessEvent_WaitGroup a q = Some q'"
  shows "wait_groups_ok q'"
proof -
  have upd: "wait_groups_ok (q\<lparr>frames := (frames q)[i := f]\<rparr>)"
    if "signal f = WaitGroup 0 \<or> signal f = WaitGroup 1" for i f
    using ok that unfolding wait_groups_ok_def by (auto dest: set_update_subset_insert [THEN subsetD])
  have nth: "signal (frames q ! i) = WaitGroup 0 \<or> signal (frames q ! i) = WaitGroup 1"
    if "i < length (frames q)" for i
    using ok that by (simp add: wait_groups_ok_def)
  have same: "wait_groups_ok q''" if "frames q'' = frames q" for q'' :: "('a, 'b) QueuedFSM"
    using ok that by (simp add: wait_groups_ok_def)
  show ?thesis
  proof (cases a)
    case (Call event)
    with st have "q' = q\<lparr>frames := frames q @ [ProcessEvent_WaitGroup event]\<rparr>"
      by (simp add: queued_step_def split: if_splits)
    then show ?thesis
      using ok by (auto simp: wait_groups_ok_def ProcessEvent_WaitGroup_def signal_defs)
  next
    case (Handoff i)
    with st have i: "i < length (frames q)"
      and q': "q' = q\<lparr> frames := (frames q)[i := (frames q ! i)\<lparr>call_pc := C_wait\<rparr>],
                        mainLoop_pc := L_process i \<rparr>"
      by (simp_all add: queued_step_def split: if_splits)
    have "wait_groups_ok (q\<lparr>frames := (frames q)[i := (frames q ! i)\<lparr>call_pc := C_wait\<rparr>]\<rparr>)"
      using nth [OF i] by (intro upd) simp
    then show ?thesis
      by (simp add: q' wait_groups_ok_def)
  next
    case CloseQ
    with st show ?thesis
      by (intro same) (auto simp: queued_step_def split: if_splits)
  next
    case (WaitReturn i)
    with st have i: "i < length (frames q)"
      and q': "q' = q\<lparr>frames :=
                        (frames q)[i := (frames q ! i)\<lparr>call_pc := C_returned (errResult (frames q ! i))\<rparr>]\<rparr>"
      by (simp_all add: queued_step_def split: if_splits)
    show ?thesis
      unfolding q' using nth [OF i] by (intro upd) simp
  next
    case Loop
    with st have ml: "mainLoop_step q = Some q'"
      by (simp add: queued_step_def split: if_splits)
    show ?thesis
    proof (cases "mainLoop_pc q")
      case (L_process i)
      with ml show ?thesis
        by (intro same)
           (auto simp: mainLoop_step_def split: if_splits option.splits outcome.splits)
    next
      case (L_complete i r)
      with ml have i: "i < length (frames q)"
        by (simp add: mainLoop_step_def split: if_splits)
      show ?thesis
      proof (cases "Done (signal (frames q ! i))")
        case None
        with ml L_complete i have q': "q' = q\<lparr> frames := (frames q)[i := (frames q ! i)\<lparr>errResult := r\<rparr>],
                            mainLoop_pc := L_panicked ''Done on a fulfilled signal'',
                            qeffects := qeffects q @ [onComplete_called i r] \<rparr>"
          by (simp add: mainLoop_step_def)
        have "wait_groups_ok (q\<lparr>frames := (frames q)[i := (frames q ! i)\<lparr>errResult := r\<rparr>]\<rparr>)"
          using nth [OF i] by (intro upd) simp
        then show ?thesis by (simp add: q' wait_groups_ok_def)
      next
        case (Some s)
        with ml L_complete i have q': "q' = q\<lparr> frames := (frames q)[i := (frames q ! i)\<lparr>errResult := r, signal := s\<rparr>],
                            mainLoop_pc := L_receive,
                            qeffects := qeffects q @ [onComplete_called i r] \<rparr>"
          by (simp add: mainLoop_step_def)
        from Some nth [OF i] have "s = WaitGroup 0"
          by (auto simp: signal_defs split: if_splits)
        then have "wait_groups_ok (q\<lparr>frames := (frames q)[i := (frames q ! i)\<lparr>errResult := r, signal := s\<rparr>]\<rparr>)"
          by (intro upd) simp
        then show ?thesis by (simp add: q' wait_groups_ok_def)
      qed
    qed (use ml in \<open>simp_all add: mainLoop_step_def\<close>)
  qed
qed

lemma queued_run_sim:
  "wait_groups_ok q \<Longrightarrow>
   map_option with_notifications (queued_run ProcessEvent_WaitGroup q acts) =
   queued_run ProcessEvent_Notification (with_notifications q) acts"
proof (induction acts arbitrary: q)
  case Nil
  then show ?case by simp
next
  case (Cons a acts)
  show ?case
  proof (cases "queued_step ProcessEvent_WaitGroup a q")
    case None
    with queued_step_sim [OF Cons.prems, of a] show ?thesis by simp
  next
    case (Some q')
    with Cons.prems have "wait_groups_ok q'" by (rule wait_groups_ok_step)
    from Cons.IH [OF this] Some queued_step_sim [OF Cons.prems, of a] show ?thesis
      by (cases "queued_step ProcessEvent_Notification a (with_notifications q)") simp_all
  qed
qed

lemma observe_with_notifications: "observe (with_notifications q) = observe q"
  by (simp add: observe_def comp_def)

subsection \<open>A call returns what the engine returned\<close>

lemma frame_ok_mono:
  assumes ok: "frame_ok q i"
      and fr: "frames q' ! i = frames q ! i"
      and ef: "set (qeffects q) \<subseteq> set (qeffects q')"
  shows "frame_ok q' i"
  using ok ef unfolding frame_ok_def fr Let_def
  by (cases "call_pc (frames q ! i)") auto

lemma queued_inv_step:
  assumes enter: "\<And>event. call_pc (enter event) = C_send \<and> \<not> Wait_returns (signal (enter event))"
      and inv: "queued_inv q" and st: "queued_step enter a q = Some q'"
  shows "queued_inv q'"
proof -
  from inv have lo: "loop_ok q" and fo: "\<And>i. i < length (frames q) \<Longrightarrow> frame_ok q i"
    by (simp_all add: queued_inv_def)
  show ?thesis
  proof (cases a)
    case (Call event)
    with st have q': "q' = q\<lparr>frames := frames q @ [enter event]\<rparr>"
      by (simp add: queued_step_def split: if_splits)
    have "loop_ok q'"
      using lo by (auto simp: q' loop_ok_def nth_append split: loop_pc.splits)
    moreover have "frame_ok q' i" if "i < length (frames q')" for i
    proof (cases "i < length (frames q)")
      case True
      with fo [OF True] show ?thesis
        by (intro frame_ok_mono [of q i q']) (simp_all add: q' nth_append)
    next
      case False
      with that have "i = length (frames q)" by (simp add: q')
      then show ?thesis
        using enter [of event] by (simp add: q' frame_ok_def Let_def)
    qed
    ultimately show ?thesis by (simp add: queued_inv_def)
  next
    case (Handoff i)
    with st have i: "i < length (frames q)" and pc: "call_pc (frames q ! i) = C_send"
      and q': "q' = q\<lparr> frames := (frames q)[i := (frames q ! i)\<lparr>call_pc := C_wait\<rparr>],
                        mainLoop_pc := L_process i \<rparr>"
      by (simp_all add: queued_step_def split: if_splits)
    have nw: "\<not> Wait_returns (signal (frames q ! i))"
      using fo [OF i] pc by (simp add: frame_ok_def)
    have "loop_ok q'"
      using i nw by (simp add: q' loop_ok_def)
    moreover have "frame_ok q' j" if "j < length (frames q')" for j
    proof (cases "j = i")
      case True
      with nw i show ?thesis
        by (simp add: q' frame_ok_def Let_def)
    next
      case False
      from that have "j < length (frames q)" by (simp add: q')
      from fo [OF this] False show ?thesis
        by (intro frame_ok_mono [of q j q']) (simp_all add: q')
    qed
    ultimately show ?thesis by (simp add: queued_inv_def)
  next
    case CloseQ
    with st have q': "q' = q\<lparr>mainLoop_pc := L_exited\<rparr>"
      by (simp add: queued_step_def split: if_splits)
    have "frame_ok q' j" if "j < length (frames q')" for j
    proof -
      from that have "j < length (frames q)" by (simp add: q')
      from fo [OF this] show ?thesis
        by (intro frame_ok_mono [of q j q']) (simp_all add: q')
    qed
    then show ?thesis by (simp add: queued_inv_def q' loop_ok_def)
  next
    case (WaitReturn i)
    with st have i: "i < length (frames q)" and pc: "call_pc (frames q ! i) = C_wait"
      and w: "Wait_returns (signal (frames q ! i))"
      and q': "q' = q\<lparr>frames :=
                        (frames q)[i := (frames q ! i)\<lparr>call_pc := C_returned (errResult (frames q ! i))\<rparr>]\<rparr>"
      by (simp_all add: queued_step_def split: if_splits)
    have "loop_ok q'"
      using lo i pc w
      by (cases "mainLoop_pc q") (auto simp: q' loop_ok_def nth_list_update)
    moreover have "frame_ok q' j" if "j < length (frames q')" for j
    proof (cases "j = i")
      case True
      with fo [OF i] pc w i show ?thesis
        by (simp add: q' frame_ok_def Let_def)
    next
      case False
      from that have "j < length (frames q)" by (simp add: q')
      from fo [OF this] False show ?thesis
        by (intro frame_ok_mono [of q j q']) (simp_all add: q')
    qed
    ultimately show ?thesis by (simp add: queued_inv_def)
  next
    case Loop
    with st have ml: "mainLoop_step q = Some q'"
      by (simp add: queued_step_def split: if_splits)
    show ?thesis
    proof (cases "mainLoop_pc q")
      case (L_process i)
      with lo have i: "i < length (frames q)" and pc: "call_pc (frames q ! i) = C_wait"
        and nw: "\<not> Wait_returns (signal (frames q ! i))"
        by (simp_all add: loop_ok_def)
      from ml L_process i obtain out w' fsm' where
        pe: "ProcessEvent 2 (qFSM q) (call_ev (frames q ! i)) (qworld q) = Some (out, w', fsm')"
        by (auto simp: mainLoop_step_def split: option.splits)
      show ?thesis
      proof (cases out)
        case (Returned r)
        with ml L_process i pe have q': "q' = q\<lparr> qFSM := fsm', qworld := w', mainLoop_pc := L_complete i r,
                            qeffects := qeffects q @
                              [Engine_returned i (call_ev (frames q ! i)) r] \<rparr>"
          by (simp add: mainLoop_step_def)
        have "loop_ok q'"
          using i pc nw by (simp add: q' loop_ok_def)
        moreover have "frame_ok q' j" if "j < length (frames q')" for j
        proof -
          from that have "j < length (frames q)" by (simp add: q')
          from fo [OF this] show ?thesis
            by (intro frame_ok_mono [of q j q']) (auto simp: q')
        qed
        ultimately show ?thesis by (simp add: queued_inv_def)
      next
        case (Panicked v)
        with ml L_process i pe have q': "q' = q\<lparr> qFSM := fsm', qworld := w', mainLoop_pc := L_panicked v \<rparr>"
          by (simp add: mainLoop_step_def)
        have "frame_ok q' j" if "j < length (frames q')" for j
        proof -
          from that have "j < length (frames q)" by (simp add: q')
          from fo [OF this] show ?thesis
            by (intro frame_ok_mono [of q j q']) (auto simp: q')
        qed
        then show ?thesis by (simp add: queued_inv_def q' loop_ok_def)
      qed
    next
      case (L_complete i r)
      with lo have i: "i < length (frames q)" and pc: "call_pc (frames q ! i) = C_wait"
        and er: "Engine_returned i (call_ev (frames q ! i)) r \<in> set (qeffects q)"
        by (simp_all add: loop_ok_def)
      from ml L_complete i obtain f l where
        q': "q' = q\<lparr> frames := (frames q)[i := f], mainLoop_pc := l,
                     qeffects := qeffects q @ [onComplete_called i r] \<rparr>"
        and f: "errResult f = r" "call_ev f = call_ev (frames q ! i)" "call_pc f = C_wait"
        and l: "l = L_receive \<or> l = L_panicked ''Done on a fulfilled signal''"
        using pc by (cases "Done (signal (frames q ! i))") (auto simp: mainLoop_step_def)
      have "loop_ok q'"
        using l by (auto simp: q' loop_ok_def)
      moreover have "frame_ok q' j" if "j < length (frames q')" for j
      proof (cases "j = i")
        case True
        with i f er show ?thesis
          by (simp add: q' frame_ok_def Let_def)
      next
        case False
        from that have "j < length (frames q)" by (simp add: q')
        from fo [OF this] False show ?thesis
          by (intro frame_ok_mono [of q j q']) (auto simp: q')
      qed
      ultimately show ?thesis by (simp add: queued_inv_def)
    qed (use ml in \<open>simp_all add: mainLoop_step_def\<close>)
  qed
qed

lemma queued_inv_run:
  assumes enter: "\<And>event. call_pc (enter event) = C_send \<and> \<not> Wait_returns (signal (enter event))"
  shows "queued_inv q \<Longrightarrow> queued_run enter q acts = Some q' \<Longrightarrow> queued_inv q'"
proof (induction acts arbitrary: q)
  case Nil
  then show ?case by simp
next
  case (Cons a acts)
  from Cons.prems(2) obtain q1 where q1: "queued_step enter a q = Some q1"
    "queued_run enter q1 acts = Some q'"
    by (auto split: option.splits)
  from enter Cons.prems(1) q1(1) have "queued_inv q1" by (rule queued_inv_step)
  then show ?case using q1(2) by (rule Cons.IH)
qed

lemma queued_inv_NewQueuedFSM: "queued_inv ((NewQueuedFSM s0 pl w0)\<lparr>qFSM := fsm\<rparr>)"
  by (simp add: queued_inv_def NewQueuedFSM_def loop_ok_def)

lemma enter_WaitGroup: "call_pc (ProcessEvent_WaitGroup event) = C_send \<and>
    \<not> Wait_returns (signal (ProcessEvent_WaitGroup event))"
  by (simp add: ProcessEvent_WaitGroup_def signal_defs)

lemma enter_Notification: "call_pc (ProcessEvent_Notification event) = C_send \<and>
    \<not> Wait_returns (signal (ProcessEvent_Notification event))"
  by (simp add: ProcessEvent_Notification_def signal_defs)

lemma returned_after_completion:
  assumes inv: "queued_inv q" and i: "i < length (frames q)"
      and r: "call_pc (frames q ! i) = C_returned r"
  shows "Engine_returned i (call_ev (frames q ! i)) r \<in> set (qeffects q) \<and>
         onComplete_called i r \<in> set (qeffects q)"
proof -
  from inv i have "frame_ok q i" by (simp add: queued_inv_def)
  with r show ?thesis by (simp add: frame_ok_def Let_def)
qed

lemma one_call:
  assumes idle: "mainLoop_pc q = L_receive"
      and pe: "ProcessEvent 2 (qFSM q) event (qworld q) = Some (Returned r, w', fsm')"
      and enter: "enter event = \<lparr> call_ev = event, errResult = None, signal = s, call_pc = C_send \<rparr>"
      and d: "Done s = Some s'" and w: "Wait_returns s'"
  shows "queued_run enter q
           [Call event, Handoff (length (frames q)), Loop, Loop, WaitReturn (length (frames q))] =
         Some (q\<lparr> qFSM := fsm', qworld := w',
                  frames := frames q @
                    [\<lparr> call_ev = event, errResult = r, signal = s', call_pc = C_returned r \<rparr>],
                  qeffects := qeffects q @
                    [Engine_returned (length (frames q)) event r,
                     onComplete_called (length (frames q)) r] \<rparr>)"
  using assms
  by (simp add: queued_step_def mainLoop_step_def queued_crashed_def nth_append
        del: ProcessEvent.simps)

subsection \<open>The two versions\<close>

text \<open>
  Claim C9. Under every schedule the system with the wait-group version of
  \<^verbatim>\<open>ProcessEvent\<close> and the system with the notification version can do the same steps
  and show the same: the same engine, the same world, the loop at the same place with the
  same entry, every call with the same event at the same place with the same result, and
  the same calls of the engine and of \<^verbatim>\<open>onComplete\<close>. In both, a call that has returned
  \<open>r\<close> returned after its \<^verbatim>\<open>onComplete\<close> was called with \<open>r\<close>, and \<open>r\<close> is what
  \<^verbatim>\<open>FSM.ProcessEvent\<close> returned for the event of this call. In both, one call on a
  loop at its receive, run to its end, returns the error that \<^verbatim>\<open>FSM.ProcessEvent\<close>
  returns on the engine as it is, and leaves the engine as that call leaves it.
\<close>

theorem QueuedFSM_ProcessEvent_versions_agree:
  "map_option observe
     (queued_run ProcessEvent_WaitGroup ((NewQueuedFSM s0 pl w0)\<lparr>qFSM := fsm\<rparr>) acts) =
   map_option observe
     (queued_run ProcessEvent_Notification ((NewQueuedFSM s0 pl w0)\<lparr>qFSM := fsm\<rparr>) acts) \<and>
   (\<forall>enter \<in> {ProcessEvent_WaitGroup, ProcessEvent_Notification}. \<forall>q' i r.
      queued_run enter ((NewQueuedFSM s0 pl w0)\<lparr>qFSM := fsm\<rparr>) acts = Some q' \<and>
      i < length (frames q') \<and> call_pc (frames q' ! i) = C_returned r \<longrightarrow>
        Engine_returned i (call_ev (frames q' ! i)) r \<in> set (qeffects q') \<and>
        onComplete_called i r \<in> set (qeffects q')) \<and>
   (\<forall>enter \<in> {ProcessEvent_WaitGroup, ProcessEvent_Notification}. \<forall>r w' fsm'.
      mainLoop_pc q = L_receive \<and>
      ProcessEvent 2 (qFSM q) event (qworld q) = Some (Returned r, w', fsm') \<longrightarrow>
        (\<exists>q'. queued_run enter q
                [Call event, Handoff (length (frames q)), Loop, Loop, WaitReturn (length (frames q))] =
                Some q' \<and>
              qFSM q' = fsm' \<and> qworld q' = w' \<and> mainLoop_pc q' = L_receive \<and>
              call_ev (frames q' ! length (frames q)) = event \<and>
              call_pc (frames q' ! length (frames q)) = C_returned r))"
proof (intro conjI ballI allI impI)
  let ?init = "(NewQueuedFSM s0 pl w0)\<lparr>qFSM := fsm\<rparr>"
  have ok: "wait_groups_ok ?init"
    by (simp add: wait_groups_ok_def NewQueuedFSM_def)
  have init: "with_notifications ?init = ?init"
    by (simp add: with_notifications_def NewQueuedFSM_def)
  have "map_option observe (queued_run ProcessEvent_WaitGroup ?init acts) =
        map_option observe (map_option with_notifications (queued_run ProcessEvent_WaitGroup ?init acts))"
    by (simp add: option.map_comp comp_def observe_with_notifications)
  also have "\<dots> = map_option observe (queued_run ProcessEvent_Notification ?init acts)"
    using queued_run_sim [OF ok, of acts] by (simp only: init)
  finally show "map_option observe (queued_run ProcessEvent_WaitGroup ?init acts) =
        map_option observe (queued_run ProcessEvent_Notification ?init acts)" .
next
  fix enter q' i r
  assume e: "enter \<in> {ProcessEvent_WaitGroup, ProcessEvent_Notification}"
     and h: "queued_run enter ((NewQueuedFSM s0 pl w0)\<lparr>qFSM := fsm\<rparr>) acts = Some q' \<and>
             i < length (frames q') \<and> call_pc (frames q' ! i) = C_returned r"
  from e have en: "\<And>event. call_pc (enter event) = C_send \<and> \<not> Wait_returns (signal (enter event))"
    using enter_WaitGroup enter_Notification by auto
  from h have run: "queued_run enter ((NewQueuedFSM s0 pl w0)\<lparr>qFSM := fsm\<rparr>) acts = Some q'"
    by simp
  have "queued_inv q'"
    by (rule queued_inv_run [of enter, OF en queued_inv_NewQueuedFSM run])
  with h show "Engine_returned i (call_ev (frames q' ! i)) r \<in> set (qeffects q')"
    and "onComplete_called i r \<in> set (qeffects q')"
    using returned_after_completion by blast+
next
  fix enter r w' fsm'
  assume e: "enter \<in> {ProcessEvent_WaitGroup, ProcessEvent_Notification}"
     and h: "mainLoop_pc q = L_receive \<and>
             ProcessEvent 2 (qFSM q) event (qworld q) = Some (Returned r, w', fsm')"
  from e obtain s s' where
    "enter event = \<lparr> call_ev = event, errResult = None, signal = s, call_pc = C_send \<rparr>"
    "Done s = Some s'" "Wait_returns s'"
    by (auto simp: ProcessEvent_WaitGroup_def ProcessEvent_Notification_def signal_defs)
  with h one_call [of q event r w' fsm' enter s s']
  show "\<exists>q'. queued_run enter q
                [Call event, Handoff (length (frames q)), Loop, Loop, WaitReturn (length (frames q))] =
                Some q' \<and>
              qFSM q' = fsm' \<and> qworld q' = w' \<and> mainLoop_pc q' = L_receive \<and>
              call_ev (frames q' ! length (frames q)) = event \<and>
              call_pc (frames q' ! length (frames q)) = C_returned r"
    by simp
qed

theorem QueuedFSM_ProcessEvent_versions_agree_witness:
  "map_option observe (queued_run ProcessEvent_WaitGroup test_queue three_calls) =
     Some (toggle_switch\<lparr>curState := ''on''\<rparr>, 3, L_receive,
           [(Switch, None, C_returned None), (Switch, None, C_returned None),
            (Switch, None, C_returned None)],
           [Engine_returned 0 Switch None, onComplete_called 0 None,
            Engine_returned 1 Switch None, onComplete_called 1 None,
            Engine_returned 2 Switch None, onComplete_called 2 None]) \<and>
   (\<exists>q'. queued_run ProcessEvent_Notification test_queue three_calls = Some q' \<and>
         call_pc (frames q' ! 2) = C_returned None \<and>
         Engine_returned 2 Switch None \<in> set (qeffects q') \<and>
         onComplete_called 2 None \<in> set (qeffects q')) \<and>
   (\<exists>q'. queued_run ProcessEvent_WaitGroup test_queue
           [Call Switch, Handoff 0, Loop, Loop, WaitReturn 0] = Some q' \<and>
         qFSM q' = toggle_switch\<lparr>curState := ''on''\<rparr> \<and> qworld q' = 1 \<and>
         call_pc (frames q' ! 0) = C_returned None)"
proof -
  let ?Q = "test_queue
      \<lparr> qFSM := toggle_switch\<lparr>curState := ''on''\<rparr>, qworld := 3,
        frames := [\<lparr> call_ev = Switch, errResult = None, signal = Notification Fulfilled,
                     call_pc = C_returned None \<rparr>,
                   \<lparr> call_ev = Switch, errResult = None, signal = Notification Fulfilled,
                     call_pc = C_returned None \<rparr>,
                   \<lparr> call_ev = Switch, errResult = None, signal = Notification Fulfilled,
                     call_pc = C_returned None \<rparr>],
        qeffects := [Engine_returned 0 Switch None, onComplete_called 0 None,
            Engine_returned 1 Switch None, onComplete_called 1 None,
            Engine_returned 2 Switch None, onComplete_called 2 None] \<rparr>"
  note inst = QueuedFSM_ProcessEvent_versions_agree
      [where ?s0.0 = off and pl = "()" and ?w0.0 = "0 :: nat" and fsm = toggle_switch
         and acts = three_calls and q = test_queue and event = Switch]
  have nt: "queued_run ProcessEvent_Notification test_queue three_calls = Some ?Q"
    by (simp add: test_queue_def three_calls_def NewQueuedFSM_def queued_step_def
          mainLoop_step_def queued_crashed_def ProcessEvent_Notification_def signal_defs
          toggle_off toggle_on
          del: ProcessEvent.simps)
  from inst have "map_option observe (queued_run ProcessEvent_WaitGroup test_queue three_calls) =
      map_option observe (queued_run ProcessEvent_Notification test_queue three_calls)"
    by (simp add: test_queue_def)
  then have 1: "map_option observe (queued_run ProcessEvent_WaitGroup test_queue three_calls) =
     Some (toggle_switch\<lparr>curState := ''on''\<rparr>, 3, L_receive,
           [(Switch, None, C_returned None), (Switch, None, C_returned None),
            (Switch, None, C_returned None)],
           [Engine_returned 0 Switch None, onComplete_called 0 None,
            Engine_returned 1 Switch None, onComplete_called 1 None,
            Engine_returned 2 Switch None, onComplete_called 2 None])"
    by (simp only: nt) (simp add: observe_def test_queue_def NewQueuedFSM_def)
  from inst have "\<forall>q' i r.
      queued_run ProcessEvent_Notification test_queue three_calls = Some q' \<and>
      i < length (frames q') \<and> call_pc (frames q' ! i) = C_returned r \<longrightarrow>
        Engine_returned i (call_ev (frames q' ! i)) r \<in> set (qeffects q') \<and>
        onComplete_called i r \<in> set (qeffects q')"
    by (simp add: test_queue_def)
  from this [rule_format, of ?Q 2 None] nt
  have 2: "\<exists>q'. queued_run ProcessEvent_Notification test_queue three_calls = Some q' \<and>
         call_pc (frames q' ! 2) = C_returned None \<and>
         Engine_returned 2 Switch None \<in> set (qeffects q') \<and>
         onComplete_called 2 None \<in> set (qeffects q')"
    by simp
  from inst have "\<forall>r w' fsm'.
      mainLoop_pc test_queue = L_receive \<and>
      ProcessEvent 2 (qFSM test_queue) Switch (qworld test_queue) = Some (Returned r, w', fsm') \<longrightarrow>
        (\<exists>q'. queued_run ProcessEvent_WaitGroup test_queue
                [Call Switch, Handoff (length (frames test_queue)), Loop, Loop,
                 WaitReturn (length (frames test_queue))] =
                Some q' \<and>
              qFSM q' = fsm' \<and> qworld q' = w' \<and> mainLoop_pc q' = L_receive \<and>
              call_ev (frames q' ! length (frames test_queue)) = Switch \<and>
              call_pc (frames q' ! length (frames test_queue)) = C_returned r)"
    by simp
  from this [rule_format, of None 1 "toggle_switch\<lparr>curState := ''on''\<rparr>"] toggle_off [of 0]
  have 3: "\<exists>q'. queued_run ProcessEvent_WaitGroup test_queue
           [Call Switch, Handoff 0, Loop, Loop, WaitReturn 0] = Some q' \<and>
         qFSM q' = toggle_switch\<lparr>curState := ''on''\<rparr> \<and> qworld q' = 1 \<and>
         call_pc (frames q' ! 0) = C_returned None"
    by (simp add: test_queue_def NewQueuedFSM_def del: ProcessEvent.simps queued_run.simps) blast
  from 1 2 3 show ?thesis by blast
qed

end
